theory Spec2Isabelle
  imports Complex_Main "HOL-Library.Sublist"
begin

section \<open>Common data: strings, errors\<close>

text \<open>
  A Python \<^verbatim>\<open>str\<close> is a sequence of Unicode code points; it is modelled as a list of
  natural numbers. \<open>str\<close> turns an ASCII literal of the theory into such a list.
\<close>

type_synonym pystr = "nat list"

definition str :: "string \<Rightarrow> pystr" where
  "str cs = map of_char cs"

text \<open>The exceptions of the source that reach a caller, as values.\<close>

datatype py_error =
  ZeroDivisionError | AttributeError | FileNotFoundError | IOError | ValueError | RecursionError
  | OSError

section \<open>Text primitives of the Python runtime\<close>

text \<open>
  The character tables of the Python runtime (its Unicode database) are not part of the
  repository. They are a parameter of every function that depends on them:
  \<^item> \<open>isword\<close>: the characters matched by \<^verbatim>\<open>\w\<close>;
  \<^item> \<open>isspace\<close>: the characters matched by \<^verbatim>\<open>\s\<close>, which are also the ones that
    \<^verbatim>\<open>str.strip()\<close> and \<^verbatim>\<open>str.split()\<close> treat as white space;
  \<^item> \<open>isdigit\<close>: the characters matched by \<^verbatim>\<open>\d\<close>;
  \<^item> \<open>lower\<close>, \<open>upper\<close>: \<^verbatim>\<open>str.lower()\<close> and \<^verbatim>\<open>str.upper()\<close>, on whole strings
    (one character may become several, and the result may depend on the neighbours);
  \<^item> \<open>capitalize\<close>: \<^verbatim>\<open>str.capitalize()\<close>;
  \<^item> \<open>casemates\<close>: the characters that a character equals under \<^verbatim>\<open>re.IGNORECASE\<close>,
    itself included;
  \<^item> \<open>digit_value\<close>: the value that \<^verbatim>\<open>int()\<close> gives to a digit.
\<close>

record ucd =
  isword :: "nat \<Rightarrow> bool"
  isspace :: "nat \<Rightarrow> bool"
  isdigit :: "nat \<Rightarrow> bool"
  lower :: "pystr \<Rightarrow> pystr"
  upper :: "pystr \<Rightarrow> pystr"
  capitalize :: "pystr \<Rightarrow> pystr"
  casemates :: "nat \<Rightarrow> nat list"
  digit_value :: "nat \<Rightarrow> nat"

text \<open>
  The tables on ASCII. A code point above 127 is taken as a caseless symbol that is
  neither a word character, a digit nor white space, which is not what Python does
  there: \<open>ascii_ucd\<close> serves to evaluate the functions on ASCII inputs only.
\<close>

definition ascii_isupper :: "nat \<Rightarrow> bool" where
  "ascii_isupper c = (65 \<le> c \<and> c \<le> 90)"

definition ascii_islower :: "nat \<Rightarrow> bool" where
  "ascii_islower c = (97 \<le> c \<and> c \<le> 122)"

definition ascii_isdigit :: "nat \<Rightarrow> bool" where
  "ascii_isdigit c = (48 \<le> c \<and> c \<le> 57)"

definition ascii_isword :: "nat \<Rightarrow> bool" where
  "ascii_isword c = (ascii_isupper c \<or> ascii_islower c \<or> ascii_isdigit c \<or> c = 95)"

definition ascii_isspace :: "nat \<Rightarrow> bool" where
  "ascii_isspace c = ((9 \<le> c \<and> c \<le> 13) \<or> (28 \<le> c \<and> c \<le> 32))"

definition ascii_lower_char :: "nat \<Rightarrow> nat" where
  "ascii_lower_char c = (if ascii_isupper c then c + 32 else c)"

definition ascii_upper_char :: "nat \<Rightarrow> nat" where
  "ascii_upper_char c = (if ascii_islower c then c - 32 else c)"

definition ascii_casemates :: "nat \<Rightarrow> nat list" where
  "ascii_casemates c =
     (if ascii_isupper c then [c, c + 32] else if ascii_islower c then [c, c - 32] else [c])"

definition ascii_capitalize :: "pystr \<Rightarrow> pystr" where
  "ascii_capitalize s =
     (case s of [] \<Rightarrow> [] | c # cs \<Rightarrow> ascii_upper_char c # map ascii_lower_char cs)"

definition ascii_ucd :: ucd where
  "ascii_ucd =
     \<lparr>isword = ascii_isword, isspace = ascii_isspace, isdigit = ascii_isdigit,
      lower = map ascii_lower_char, upper = map ascii_upper_char,
      capitalize = ascii_capitalize, casemates = ascii_casemates,
      digit_value = (\<lambda>c. c - 48)\<rparr>"

text \<open>\<^verbatim>\<open>s.strip(chars)\<close> and \<^verbatim>\<open>s.strip()\<close>: the characters to strip as a predicate.\<close>

definition lstrip :: "(nat \<Rightarrow> bool) \<Rightarrow> pystr \<Rightarrow> pystr" where
  "lstrip P s = dropWhile P s"

definition rstrip :: "(nat \<Rightarrow> bool) \<Rightarrow> pystr \<Rightarrow> pystr" where
  "rstrip P s = rev (dropWhile P (rev s))"

definition strip :: "(nat \<Rightarrow> bool) \<Rightarrow> pystr \<Rightarrow> pystr" where
  "strip P s = rstrip P (lstrip P s)"

text \<open>
  \<^verbatim>\<open>re.sub(r"[...]", "", s)\<close> for a character class deletes the characters of the class;
  \<^verbatim>\<open>re.sub(r"[...]+", r, s)\<close> replaces every maximal run of characters of the class
  by \<open>r\<close>.
\<close>

definition sub_delete :: "(nat \<Rightarrow> bool) \<Rightarrow> pystr \<Rightarrow> pystr" where
  "sub_delete P s = filter (\<lambda>c. \<not> P c) s"

fun sub_runs :: "(nat \<Rightarrow> bool) \<Rightarrow> pystr \<Rightarrow> bool \<Rightarrow> pystr \<Rightarrow> pystr" where
  "sub_runs P r in_run [] = []"
| "sub_runs P r in_run (c # cs) =
     (if P c then (if in_run then sub_runs P r True cs else r @ sub_runs P r True cs)
      else c # sub_runs P r False cs)"

text \<open>
  \<^verbatim>\<open>sep.join(parts)\<close>, \<^verbatim>\<open>s.split("\n")\<close> for a separator of one character, which
  always gives at least one piece, and \<^verbatim>\<open>s.split()\<close>, which gives the maximal runs of
  characters that are no white space.
\<close>

fun join :: "pystr \<Rightarrow> pystr list \<Rightarrow> pystr" where
  "join sep [] = []"
| "join sep [x] = x"
| "join sep (x # y # ys) = x @ sep @ join sep (y # ys)"

fun split_on :: "nat \<Rightarrow> pystr \<Rightarrow> pystr list" where
  "split_on sep [] = [[]]"
| "split_on sep (c # cs) =
     (if c = sep then [] # split_on sep cs
      else (case split_on sep cs of
              [] \<Rightarrow> [[c]]
            | p # ps \<Rightarrow> (c # p) # ps))"

fun split_words :: "(nat \<Rightarrow> bool) \<Rightarrow> pystr \<Rightarrow> pystr \<Rightarrow> pystr list" where
  "split_words sp cur [] = (if cur = [] then [] else [rev cur])"
| "split_words sp cur (c # cs) =
     (if sp c then (if cur = [] then split_words sp [] cs else rev cur # split_words sp [] cs)
      else split_words sp (c # cur) cs)"

definition split :: "ucd \<Rightarrow> pystr \<Rightarrow> pystr list" where
  "split U s = split_words (isspace U) [] s"

text \<open>The decimal digits of a number, and the format \<^verbatim>\<open>{n:03d}\<close>.\<close>

fun digits10 :: "nat \<Rightarrow> pystr" where
  "digits10 n = (if n < 10 then [48 + n] else digits10 (n div 10) @ [48 + n mod 10])"

declare digits10.simps [simp del]

definition format_03d :: "nat \<Rightarrow> pystr" where
  "format_03d n = replicate (3 - length (digits10 n)) 48 @ digits10 n"

text \<open>A Python \<^verbatim>\<open>set\<close> is a list without repetitions.\<close>

definition set_add :: "'a \<Rightarrow> 'a list \<Rightarrow> 'a list" where
  "set_add x xs = (if x \<in> set xs then xs else xs @ [x])"

definition set_remove :: "'a \<Rightarrow> 'a list \<Rightarrow> 'a list" where
  "set_remove x xs = filter (\<lambda>y. y \<noteq> x) xs"

text \<open>
  The truth value of an optional string, as in \<^verbatim>\<open>if self.target_section:\<close>: neither
  \<^verbatim>\<open>None\<close> nor empty.
\<close>

definition truthy :: "pystr option \<Rightarrow> bool" where
  "truthy s = (case s of None \<Rightarrow> False | Some t \<Rightarrow> t \<noteq> [])"

definition hyphen :: nat where
  "hyphen = 45"

section \<open>Regular expressions of the Python runtime\<close>

text \<open>
  The module \<^verbatim>\<open>re\<close> is not part of the repository. The patterns of the source use
  literals, the dot, character sets, concatenation, alternation, greedy repetition,
  capture groups and the anchors \<^verbatim>\<open>^\<close>, \<^verbatim>\<open>$\<close> and \<^verbatim>\<open>\b\<close>; \<open>rx\<close> is their syntax. A
  character set is a list of single characters, ranges and the classes \<^verbatim>\<open>\w\<close>,
  \<^verbatim>\<open>\s\<close>, \<^verbatim>\<open>\d\<close>, possibly negated.
\<close>

datatype set_item = CChar nat | CRange nat nat | CWord | CSpace | CDigit

datatype rx =
    Any
  | Lit nat
  | Set bool "set_item list"
  | Cat rx rx
  | Alt rx rx
  | Rep nat "nat option" rx
  | Grp nat rx
  | Bol
  | Eol
  | Bnd
  | Eps

fun cat :: "rx list \<Rightarrow> rx" where
  "cat [] = Eps"
| "cat [r] = r"
| "cat (r # rs) = Cat r (cat rs)"

fun alt :: "rx list \<Rightarrow> rx" where
  "alt [] = Set False []"
| "alt [r] = r"
| "alt (r # rs) = Alt r (alt rs)"

definition lit :: "string \<Rightarrow> rx" where
  "lit cs = cat (map Lit (str cs))"

definition plus :: "rx \<Rightarrow> rx" where
  "plus r = Rep 1 None r"

definition star :: "rx \<Rightarrow> rx" where
  "star r = Rep 0 None r"

definition opt :: "rx \<Rightarrow> rx" where
  "opt r = Rep 0 (Some 1) r"

text \<open>
  What a match depends on: the character tables, the flags \<^verbatim>\<open>re.IGNORECASE\<close> and
  \<^verbatim>\<open>re.MULTILINE\<close>, and the text that is searched.
\<close>

record rx_env =
  tables :: ucd
  ignorecase :: bool
  multiline :: bool
  subject :: pystr

definition char_eq :: "rx_env \<Rightarrow> nat \<Rightarrow> nat \<Rightarrow> bool" where
  "char_eq E c d = (d = c \<or> (ignorecase E \<and> d \<in> set (casemates (tables E) c)))"

fun item_match :: "rx_env \<Rightarrow> nat \<Rightarrow> set_item \<Rightarrow> bool" where
  "item_match E d (CChar c) = char_eq E c d"
| "item_match E d (CRange a b) =
     ((a \<le> d \<and> d \<le> b)
      \<or> (ignorecase E \<and> list_ex (\<lambda>e. a \<le> e \<and> e \<le> b) (casemates (tables E) d)))"
| "item_match E d CWord = isword (tables E) d"
| "item_match E d CSpace = isspace (tables E) d"
| "item_match E d CDigit = isdigit (tables E) d"

text \<open>
  A matcher state is a position in the text and the spans of the groups matched so far,
  the latest first. \<open>rx_match r E st\<close> lists the states in which a match of \<open>r\<close> that
  starts in \<open>st\<close> can end, in the order in which the backtracking matcher of \<^verbatim>\<open>re\<close>
  tries them: the left alternative before the right one, more repetitions before fewer.
  The first element is the match that \<^verbatim>\<open>re\<close> reports. A repetition stops at an
  iteration that consumes nothing; the repeated parts of the patterns modelled here always
  consume a character.
\<close>

type_synonym caps = "(nat \<times> nat \<times> nat) list"

type_synonym mstate = "nat \<times> caps"

fun rep_loop ::
  "(mstate \<Rightarrow> mstate list) \<Rightarrow> nat \<Rightarrow> nat \<Rightarrow> nat option \<Rightarrow> nat \<Rightarrow> mstate \<Rightarrow> mstate list"
where
  "rep_loop step 0 lo hi k st = (if lo \<le> k then [st] else [])"
| "rep_loop step (Suc fuel) lo hi k st =
     (if hi = Some k then [st]
      else concat (map (\<lambda>st'. if fst st < fst st'
                               then rep_loop step fuel lo hi (Suc k) st' else [])
                     (step st))
           @ (if lo \<le> k then [st] else []))"

declare rep_loop.simps [simp del]

definition at_bol :: "rx_env \<Rightarrow> nat \<Rightarrow> bool" where
  "at_bol E i = (i = 0 \<or> (multiline E \<and> i \<le> length (subject E) \<and> subject E ! (i - 1) = 10))"

definition at_eol :: "rx_env \<Rightarrow> nat \<Rightarrow> bool" where
  "at_eol E i =
     (let s = subject E; n = length s in
      i = n \<or> (i + 1 = n \<and> s ! i = 10) \<or> (multiline E \<and> i < n \<and> s ! i = 10))"

definition word_at :: "rx_env \<Rightarrow> nat \<Rightarrow> bool" where
  "word_at E i = (i < length (subject E) \<and> isword (tables E) (subject E ! i))"

definition at_boundary :: "rx_env \<Rightarrow> nat \<Rightarrow> bool" where
  "at_boundary E i = ((0 < i \<and> word_at E (i - 1)) \<noteq> word_at E i)"

primrec rx_match :: "rx \<Rightarrow> rx_env \<Rightarrow> mstate \<Rightarrow> mstate list" where
  "rx_match Any E =
     (\<lambda>(i, cs). if i < length (subject E) \<and> subject E ! i \<noteq> 10 then [(Suc i, cs)] else [])"
| "rx_match (Lit c) E =
     (\<lambda>(i, cs). if i < length (subject E) \<and> char_eq E c (subject E ! i)
                 then [(Suc i, cs)] else [])"
| "rx_match (Set negated its) E =
     (\<lambda>(i, cs). if i < length (subject E)
                    \<and> (list_ex (item_match E (subject E ! i)) its \<noteq> negated)
                 then [(Suc i, cs)] else [])"
| "rx_match (Cat a b) E = (\<lambda>st. concat (map (rx_match b E) (rx_match a E st)))"
| "rx_match (Alt a b) E = (\<lambda>st. rx_match a E st @ rx_match b E st)"
| "rx_match (Rep lo hi a) E =
     (\<lambda>st. rep_loop (rx_match a E) (Suc (length (subject E) - fst st)) lo hi 0 st)"
| "rx_match (Grp n a) E =
     (\<lambda>(i, cs). map (\<lambda>(j, cs'). (j, (n, i, j) # cs')) (rx_match a E (i, cs)))"
| "rx_match Bol E = (\<lambda>(i, cs). if at_bol E i then [(i, cs)] else [])"
| "rx_match Eol E = (\<lambda>(i, cs). if at_eol E i then [(i, cs)] else [])"
| "rx_match Bnd E = (\<lambda>(i, cs). if at_boundary E i then [(i, cs)] else [])"
| "rx_match Eps E = (\<lambda>st. [st])"

text \<open>
  A match object: where the match starts and ends, and the spans of its groups.
  \<^verbatim>\<open>m.group(0)\<close> is the matched text, \<^verbatim>\<open>m.group(k)\<close> the text of group \<open>k\<close> or
  \<^verbatim>\<open>None\<close>, and \<^verbatim>\<open>m.groups()\<close> is empty for a pattern without groups.
\<close>

record rmatch =
  m_start :: nat
  m_end :: nat
  m_caps :: caps
  m_text :: pystr

definition slice :: "pystr \<Rightarrow> nat \<Rightarrow> nat \<Rightarrow> pystr" where
  "slice s i j = take (j - i) (drop i s)"

definition group0 :: "rmatch \<Rightarrow> pystr" where
  "group0 m = slice (m_text m) (m_start m) (m_end m)"

fun find_cap :: "caps \<Rightarrow> nat \<Rightarrow> (nat \<times> nat) option" where
  "find_cap [] k = None"
| "find_cap ((n, i, j) # cs) k = (if n = k then Some (i, j) else find_cap cs k)"

definition group :: "rmatch \<Rightarrow> nat \<Rightarrow> pystr option" where
  "group m k = (case find_cap (m_caps m) k of None \<Rightarrow> None
                | Some (i, j) \<Rightarrow> Some (slice (m_text m) i j))"

text \<open>
  \<^verbatim>\<open>re.finditer\<close>: the leftmost match from each position on, the next search starting
  where the last match ended.
\<close>

function finditer_from :: "rx \<Rightarrow> rx_env \<Rightarrow> nat \<Rightarrow> rmatch list" where
  "finditer_from r E i =
     (if length (subject E) < i then []
      else (case rx_match r E (i, []) of
              [] \<Rightarrow> finditer_from r E (Suc i)
            | (j, cs) # rest \<Rightarrow>
                \<lparr>m_start = i, m_end = j, m_caps = cs, m_text = subject E\<rparr>
                # finditer_from r E (if i < j then j else Suc i)))"
  by pat_completeness auto
termination
  by (relation "measure (\<lambda>(r, E, i). Suc (length (subject E)) - i)") auto

declare finditer_from.simps [simp del]

definition re_env :: "ucd \<Rightarrow> bool \<Rightarrow> bool \<Rightarrow> pystr \<Rightarrow> rx_env" where
  "re_env U ic ml s = \<lparr>tables = U, ignorecase = ic, multiline = ml, subject = s\<rparr>"

definition re_finditer :: "ucd \<Rightarrow> rx \<Rightarrow> bool \<Rightarrow> bool \<Rightarrow> pystr \<Rightarrow> rmatch list" where
  "re_finditer U r ic ml s = finditer_from r (re_env U ic ml s) 0"

definition re_search :: "ucd \<Rightarrow> rx \<Rightarrow> bool \<Rightarrow> bool \<Rightarrow> pystr \<Rightarrow> rmatch option" where
  "re_search U r ic ml s = (case re_finditer U r ic ml s of [] \<Rightarrow> None | m # ms \<Rightarrow> Some m)"

definition re_match :: "ucd \<Rightarrow> rx \<Rightarrow> bool \<Rightarrow> bool \<Rightarrow> pystr \<Rightarrow> rmatch option" where
  "re_match U r ic ml s =
     (case rx_match r (re_env U ic ml s) (0, []) of
        [] \<Rightarrow> None
      | (j, cs) # rest \<Rightarrow> Some \<lparr>m_start = 0, m_end = j, m_caps = cs, m_text = s\<rparr>)"

text \<open>
  \<^verbatim>\<open>re.split\<close> for a pattern without groups: the pieces of the text between the
  matches. \<^verbatim>\<open>re.sub(pattern, "", text)\<close>: the pieces put together again.
\<close>

fun pieces :: "pystr \<Rightarrow> nat \<Rightarrow> rmatch list \<Rightarrow> pystr list" where
  "pieces s i [] = [drop i s]"
| "pieces s i (m # ms) = slice s i (m_start m) # pieces s (m_end m) ms"

definition re_split :: "ucd \<Rightarrow> rx \<Rightarrow> pystr \<Rightarrow> pystr list" where
  "re_split U r s = pieces s 0 (re_finditer U r False False s)"

definition re_sub_empty :: "ucd \<Rightarrow> rx \<Rightarrow> bool \<Rightarrow> pystr \<Rightarrow> pystr" where
  "re_sub_empty U r ic s = concat (pieces s 0 (re_finditer U r ic False s))"

section \<open>Syntactic properties of patterns\<close>

text \<open>
  Three properties of a pattern that can be read off its syntax: every match consumes a
  character; the pattern has no group \<open>k\<close>; every match leaves group \<open>k\<close> bound.
\<close>

fun consuming :: "rx \<Rightarrow> bool" where
  "consuming Any = True"
| "consuming (Lit c) = True"
| "consuming (Set negated its) = True"
| "consuming (Cat a b) = (consuming a \<or> consuming b)"
| "consuming (Alt a b) = (consuming a \<and> consuming b)"
| "consuming (Rep lo hi a) = (1 \<le> lo \<and> hi \<noteq> Some 0)"
| "consuming (Grp n a) = consuming a"
| "consuming r = False"

fun nogroup :: "nat \<Rightarrow> rx \<Rightarrow> bool" where
  "nogroup k (Cat a b) = (nogroup k a \<and> nogroup k b)"
| "nogroup k (Alt a b) = (nogroup k a \<and> nogroup k b)"
| "nogroup k (Rep lo hi a) = nogroup k a"
| "nogroup k (Grp n a) = (n \<noteq> k \<and> nogroup k a)"
| "nogroup k r = True"

fun binds :: "nat \<Rightarrow> rx \<Rightarrow> bool" where
  "binds k (Cat a b) = (binds k b \<or> (binds k a \<and> nogroup k b))"
| "binds k (Alt a b) = (binds k a \<and> binds k b)"
| "binds k (Grp n a) = (if n = k then consuming a else binds k a)"
| "binds k r = False"

section \<open>Heading slugs and kebab-case names\<close>

text \<open>
  \<^verbatim>\<open>MarkdownParser._heading_to_id\<close> (core/markdown\_parser.py):
  \<^verbatim>\<open>
  section_id = heading.lower()
  section_id = re.sub(r"[^\w\s-]", "", section_id)
  section_id = re.sub(r"[-\s]+", "-", section_id)
  return section_id.strip("-")
  \<close>
\<close>

definition heading_to_id :: "ucd \<Rightarrow> pystr \<Rightarrow> pystr" where
  "heading_to_id U heading =
     (let section_id = lower U heading;
          section_id = sub_delete (\<lambda>c. \<not> (isword U c \<or> isspace U c \<or> c = hyphen)) section_id;
          section_id = sub_runs (\<lambda>c. c = hyphen \<or> isspace U c) [hyphen] False section_id
      in strip (\<lambda>c. c = hyphen) section_id)"

text \<open>
  \<^verbatim>\<open>FeatureDetector._to_kebab_case\<close> (core/feature\_detector.py):
  \<^verbatim>\<open>
  text = re.sub(r"[^\w\s-]", "", text)
  text = re.sub(r"\s+", "-", text)
  text = text.lower()
  text = re.sub(r"-+", "-", text)
  text = text.strip("-")
  \<close>
\<close>

definition to_kebab_case :: "ucd \<Rightarrow> pystr \<Rightarrow> pystr" where
  "to_kebab_case U text =
     (let text = sub_delete (\<lambda>c. \<not> (isword U c \<or> isspace U c \<or> c = hyphen)) text;
          text = sub_runs (isspace U) [hyphen] False text;
          text = lower U text;
          text = sub_runs (\<lambda>c. c = hyphen) [hyphen] False text
      in strip (\<lambda>c. c = hyphen) text)"

section \<open>Properties of the character tables\<close>

text \<open>
  A property of \<^verbatim>\<open>str.lower()\<close> that the tables of a Python runtime may or may not
  have. \<open>lower_stable\<close>: a string made of characters that \<open>lower\<close> produces, and of
  hyphens, is left alone by \<open>lower\<close>.
\<close>

definition lower_stable :: "ucd \<Rightarrow> bool" where
  "lower_stable U = (\<forall>s t. set t \<subseteq> insert hyphen (set (lower U s)) \<longrightarrow> lower U t = t)"

text \<open>
  A property of one text. \<open>kebab_prelower\<close> is the text as \<open>to_kebab_case\<close> has it when
  it calls \<open>lower\<close>; \<open>lowers_to_words\<close> says that the lowered text consists of word
  characters and hyphens that are no white space (and that the hyphen is no white space).
\<close>

definition wordlike :: "ucd \<Rightarrow> nat \<Rightarrow> bool" where
  "wordlike U c = ((isword U c \<or> c = hyphen) \<and> \<not> isspace U c)"

definition kebab_prelower :: "ucd \<Rightarrow> pystr \<Rightarrow> pystr" where
  "kebab_prelower U text =
     sub_runs (isspace U) [hyphen] False
       (sub_delete (\<lambda>c. \<not> (isword U c \<or> isspace U c \<or> c = hyphen)) text)"

definition lowers_to_words :: "ucd \<Rightarrow> pystr \<Rightarrow> bool" where
  "lowers_to_words U text =
     (\<not> isspace U hyphen \<and> list_all (wordlike U) (lower U (kebab_prelower U text)))"

text \<open>
  The ASCII tables extended by two code points as Python has them: U+0130 (capital I with
  dot above) is a word character whose lower case is the two characters U+0069 U+0307, and
  U+0307 (combining dot above) is not a word character.
\<close>

definition dotted_lower_char :: "nat \<Rightarrow> pystr" where
  "dotted_lower_char c = (if c = 304 then [105, 775] else [ascii_lower_char c])"

definition dotted_ucd :: ucd where
  "dotted_ucd =
     ascii_ucd\<lparr>isword := (\<lambda>c. ascii_isword c \<or> c = 304),
               lower := (\<lambda>s. concat (map dotted_lower_char s))\<rparr>"

text \<open>
  A string in which every character of the class \<open>P\<close> is the character \<open>h\<close> and no
  two characters of the class are neighbours: the shape of a string after its runs of
  \<open>P\<close> have been replaced by \<open>h\<close>.
\<close>

definition collapsed :: "(nat \<Rightarrow> bool) \<Rightarrow> nat \<Rightarrow> pystr \<Rightarrow> bool" where
  "collapsed P h t =
     ((\<forall>c \<in> set t. P c \<longrightarrow> c = h) \<and> successively (\<lambda>a b. \<not> (P a \<and> P b)) t)"

section \<open>Feature detection (core/feature\_detector.py)\<close>

datatype Priority = P1 | P2 | P3

text \<open>
  \<^verbatim>\<open>DetectedFeature\<close>; the fields \<^verbatim>\<open>id\<close> and \<^verbatim>\<open>keywords\<close> are \<open>id'\<close>
  and \<open>keywords'\<close> here. A confidence is a decimal
  fraction that the code only stores and compares; it is modelled as a real number.
\<close>

record DetectedFeature =
  id' :: pystr
  name :: pystr
  title :: pystr
  description :: pystr
  priority :: Priority
  source_section_id :: pystr
  confidence :: real
  keywords' :: "pystr list"

text \<open>The constructor, with the arguments in the order of the fields.\<close>

definition new_feature ::
  "pystr \<Rightarrow> pystr \<Rightarrow> pystr \<Rightarrow> pystr \<Rightarrow> Priority \<Rightarrow> pystr \<Rightarrow> real \<Rightarrow> pystr list
   \<Rightarrow> DetectedFeature"
where
  "new_feature i n t d p s c k =
     \<lparr>id' = i, name = n, title = t, description = d, priority = p, source_section_id = s,
      confidence = c, keywords' = k\<rparr>"

definition FEATURE_ACTION_VERBS :: "string list" where
  "FEATURE_ACTION_VERBS =
     [''create'', ''manage'', ''book'', ''search'', ''browse'', ''upload'', ''download'',
      ''send'', ''receive'', ''process'', ''track'', ''view'', ''edit'', ''delete'',
      ''share'', ''export'', ''import'', ''connect'', ''integrate'', ''analyze'',
      ''report'', ''notify'', ''approve'', ''reject'', ''review'', ''rate'']"

definition FEATURE_KEYWORDS :: "string list" where
  "FEATURE_KEYWORDS =
     [''user'', ''account'', ''profile'', ''listing'', ''product'', ''booking'',
      ''reservation'', ''payment'', ''transaction'', ''search'', ''filter'', ''dashboard'',
      ''analytics'', ''report'', ''notification'', ''message'', ''review'', ''rating'',
      ''comment'', ''feed'', ''timeline'', ''calendar'', ''schedule'', ''settings'',
      ''preferences'', ''authentication'', ''authorization'', ''registration'']"

text \<open>
  \<^verbatim>\<open>_extract_feature_name\<close>:
  \<^verbatim>\<open>
  text = re.sub(r"^(feature:|capability:|component:)\s*", "", text, flags=re.IGNORECASE)
  words = text.split()[:4]
  feature_name = " ".join(words)
  feature_name = re.sub(r"[^\w\s-]", "", feature_name)
  feature_name = feature_name.strip()
  return feature_name if len(feature_name) > 3 else None
  \<close>
\<close>

definition prefix_pattern :: rx where
  "prefix_pattern =
     cat [Bol, Grp 1 (alt [lit ''feature:'', lit ''capability:'', lit ''component:'']),
          star (Set False [CSpace])]"

definition extract_feature_name :: "ucd \<Rightarrow> pystr \<Rightarrow> pystr option" where
  "extract_feature_name U text0 =
     (let text1 = re_sub_empty U prefix_pattern True text0;
          words = take 4 (split U text1);
          feature_name = join (str '' '') words;
          feature_name = sub_delete (\<lambda>c. \<not> (isword U c \<or> isspace U c \<or> c = hyphen)) feature_name;
          feature_name = strip (isspace U) feature_name
      in if length feature_name > 3 then Some feature_name else None)"

text \<open>
  \<^verbatim>\<open>_extract_from_bullets\<close>. The pattern is
  \<^verbatim>\<open>^[\s]*[-*\u2022][\s]+(.+)$|^[\s]*\d+\.[\s]+(.+)$\<close>, matched at the start of each line with
  \<^verbatim>\<open>re.MULTILINE\<close>. The content is \<^verbatim>\<open>match.group(1) if match.group(1) else
  match.group(2)\<close>; calling \<^verbatim>\<open>strip\<close> on \<^verbatim>\<open>None\<close> would raise \<^verbatim>\<open>AttributeError\<close>.
\<close>

definition bullet_mark_pattern :: rx where
  "bullet_mark_pattern =
     cat [Bol, star (Set False [CSpace]), Set False [CChar 45, CChar 42, CChar 8226],
          plus (Set False [CSpace]), Grp 1 (plus Any), Eol]"

definition bullet_number_pattern :: rx where
  "bullet_number_pattern =
     cat [Bol, star (Set False [CSpace]), plus (Set False [CDigit]), Lit 46,
          plus (Set False [CSpace]), Grp 2 (plus Any), Eol]"

definition bullet_pattern :: rx where
  "bullet_pattern = Alt bullet_mark_pattern bullet_number_pattern"

definition group_or :: "rmatch \<Rightarrow> nat \<Rightarrow> nat \<Rightarrow> pystr option" where
  "group_or m a b = (if truthy (group m a) then group m a else group m b)"

definition bullet_feature :: "ucd \<Rightarrow> pystr \<Rightarrow> pystr \<Rightarrow> pystr \<Rightarrow> DetectedFeature" where
  "bullet_feature U section_id content feature_name =
     \<lparr>id' = [], name = to_kebab_case U feature_name, title = feature_name,
      description = content, priority = P1, source_section_id = section_id,
      confidence = 85 / 100, keywords' = [lower U feature_name]\<rparr>"

fun bullet_lines ::
  "ucd \<Rightarrow> pystr \<Rightarrow> pystr list \<Rightarrow> DetectedFeature list \<Rightarrow> py_error + DetectedFeature list"
where
  "bullet_lines U section_id [] features = Inr features"
| "bullet_lines U section_id (line # lines) features =
     (case re_match U bullet_pattern False True line of
        None \<Rightarrow> bullet_lines U section_id lines features
      | Some m \<Rightarrow>
          (case group_or m 1 2 of
             None \<Rightarrow> Inl AttributeError
           | Some content0 \<Rightarrow>
               (let content = strip (isspace U) content0
                in if length content > 5
                   then (case extract_feature_name U content of
                           Some feature_name \<Rightarrow>
                             bullet_lines U section_id lines
                               (features @ [bullet_feature U section_id content feature_name])
                         | None \<Rightarrow> bullet_lines U section_id lines features)
                   else bullet_lines U section_id lines features)))"

definition extract_from_bullets ::
  "ucd \<Rightarrow> pystr \<Rightarrow> pystr \<Rightarrow> py_error + DetectedFeature list"
where
  "extract_from_bullets U text0 section_id = bullet_lines U section_id (split_on 10 text0) []"

text \<open>
  \<^verbatim>\<open>_extract_from_action_verbs\<close>: for each verb, the matches of
  \<^verbatim>\<open>\b{verb}\s+(\w+(?:\s+\w+)?)\<close> under \<^verbatim>\<open>re.IGNORECASE\<close>.
\<close>

definition verb_pattern :: "string \<Rightarrow> rx" where
  "verb_pattern verb =
     cat [Bnd, lit verb, plus (Set False [CSpace]),
          Grp 1 (cat [plus (Set False [CWord]),
                      opt (cat [plus (Set False [CSpace]), plus (Set False [CWord])])])]"

definition verb_feature :: "ucd \<Rightarrow> pystr \<Rightarrow> string \<Rightarrow> pystr \<Rightarrow> DetectedFeature" where
  "verb_feature U section_id verb object_text =
     (let feature_name = capitalize U (str verb) @ str '' '' @ capitalize U object_text
      in \<lparr>id' = [], name = to_kebab_case U feature_name, title = feature_name,
           description = str ''Feature: '' @ feature_name, priority = P2,
           source_section_id = section_id, confidence = 70 / 100,
           keywords' = [str verb, lower U object_text]\<rparr>)"

fun verb_matches ::
  "ucd \<Rightarrow> pystr \<Rightarrow> string \<Rightarrow> rmatch list \<Rightarrow> DetectedFeature list
   \<Rightarrow> py_error + DetectedFeature list"
where
  "verb_matches U section_id verb [] features = Inr features"
| "verb_matches U section_id verb (m # ms) features =
     (case group m 1 of
        None \<Rightarrow> Inl AttributeError
      | Some object_text \<Rightarrow>
          verb_matches U section_id verb ms
            (features @ [verb_feature U section_id verb object_text]))"

fun verbs_loop ::
  "ucd \<Rightarrow> pystr \<Rightarrow> pystr \<Rightarrow> string list \<Rightarrow> DetectedFeature list
   \<Rightarrow> py_error + DetectedFeature list"
where
  "verbs_loop U text0 section_id [] features = Inr features"
| "verbs_loop U text0 section_id (verb # verbs) features =
     (case verb_matches U section_id verb
             (re_finditer U (verb_pattern verb) True False text0) features of
        Inl e \<Rightarrow> Inl e
      | Inr features' \<Rightarrow> verbs_loop U text0 section_id verbs features')"

definition extract_from_action_verbs ::
  "ucd \<Rightarrow> pystr \<Rightarrow> pystr \<Rightarrow> py_error + DetectedFeature list"
where
  "extract_from_action_verbs U text0 section_id =
     verbs_loop U text0 section_id FEATURE_ACTION_VERBS []"

text \<open>
  \<^verbatim>\<open>_extract_from_keywords\<close>: one feature for each keyword for which
  \<^verbatim>\<open>\b{keyword}(?:s)?\b\<close> is found under \<^verbatim>\<open>re.IGNORECASE\<close>.
\<close>

definition keyword_pattern :: "string \<Rightarrow> rx" where
  "keyword_pattern keyword = cat [Bnd, lit keyword, opt (Lit 115), Bnd]"

definition keyword_feature :: "ucd \<Rightarrow> pystr \<Rightarrow> string \<Rightarrow> DetectedFeature" where
  "keyword_feature U section_id keyword =
     (let feature_name = capitalize U (str keyword) @ str '' Management''
      in \<lparr>id' = [], name = to_kebab_case U feature_name, title = feature_name,
           description = str ''Feature: '' @ feature_name, priority = P3,
           source_section_id = section_id, confidence = 60 / 100,
           keywords' = [str keyword]\<rparr>)"

definition extract_from_keywords :: "ucd \<Rightarrow> pystr \<Rightarrow> pystr \<Rightarrow> DetectedFeature list" where
  "extract_from_keywords U text0 section_id =
     map (keyword_feature U section_id)
       (filter (\<lambda>keyword. re_search U (keyword_pattern keyword) True False text0 \<noteq> None)
          FEATURE_KEYWORDS)"

text \<open>
  \<^verbatim>\<open>_deduplicate_features\<close>: the first feature of each lower-cased name.
\<close>

fun dedup_loop ::
  "ucd \<Rightarrow> DetectedFeature list \<Rightarrow> pystr list \<Rightarrow> DetectedFeature list \<Rightarrow> DetectedFeature list"
where
  "dedup_loop U [] seen_names deduplicated = deduplicated"
| "dedup_loop U (feature # features) seen_names deduplicated =
     (let normalized_name = lower U (name feature)
      in if normalized_name \<notin> set seen_names
         then dedup_loop U features (set_add normalized_name seen_names)
                (deduplicated @ [feature])
         else dedup_loop U features seen_names deduplicated)"

definition deduplicate_features :: "ucd \<Rightarrow> DetectedFeature list \<Rightarrow> DetectedFeature list" where
  "deduplicate_features U features = (if features = [] then [] else dedup_loop U features [] [])"

text \<open>
  \<^verbatim>\<open>sorted(features, key=lambda f: f.confidence, reverse=True)\<close> is stable: features of
  equal confidence keep their order. It is the stable sort by the negated confidence.
\<close>

definition sorted_by_confidence :: "DetectedFeature list \<Rightarrow> DetectedFeature list" where
  "sorted_by_confidence features = sort_key (\<lambda>f. - confidence f) features"

text \<open>
  \<^verbatim>\<open>_assign_priorities\<close>: sort, then set the priority of each feature from its index.
\<close>

definition priority_of_rank :: "nat \<Rightarrow> Priority" where
  "priority_of_rank idx = (if idx < 3 then P1 else if idx < 7 then P2 else P3)"

definition assign_priorities :: "DetectedFeature list \<Rightarrow> DetectedFeature list" where
  "assign_priorities features =
     map (\<lambda>(idx, feature). feature\<lparr>priority := priority_of_rank idx\<rparr>)
       (enumerate 0 (sorted_by_confidence features))"

definition assign_ids :: "DetectedFeature list \<Rightarrow> DetectedFeature list" where
  "assign_ids features =
     map (\<lambda>(idx, feature). feature\<lparr>id' := format_03d idx\<rparr>) (enumerate 1 features)"

text \<open>
  \<^verbatim>\<open>detect_features\<close>: the four passes, deduplication, priorities, the cap at 10, ids.
\<close>

definition collect_features ::
  "ucd \<Rightarrow> pystr \<Rightarrow> pystr \<Rightarrow> py_error + DetectedFeature list"
where
  "collect_features U product_text solution_text =
     (case extract_from_bullets U product_text (str ''product'') of
        Inl e \<Rightarrow> Inl e
      | Inr bullet_features \<Rightarrow>
     (case extract_from_bullets U solution_text (str ''solution'') of
        Inl e \<Rightarrow> Inl e
      | Inr bullet_features_solution \<Rightarrow>
     (case extract_from_action_verbs U product_text (str ''product'') of
        Inl e \<Rightarrow> Inl e
      | Inr action_features \<Rightarrow>
          Inr (bullet_features @ bullet_features_solution @ action_features
               @ extract_from_keywords U solution_text (str ''solution'')))))"

definition detect_features ::
  "ucd \<Rightarrow> pystr \<Rightarrow> pystr \<Rightarrow> py_error + DetectedFeature list"
where
  "detect_features U product_text solution_text =
     (case collect_features U product_text solution_text of
        Inl e \<Rightarrow> Inl e
      | Inr features0 \<Rightarrow>
          (let features1 = deduplicate_features U features0;
               features2 = assign_priorities features1;
               features3 = (if length features2 > 10
                            then take 10 (sorted_by_confidence features2) else features2)
           in Inr (assign_ids features3)))"

text \<open>
  The pipeline in the words of the specification, from the candidates on: deduplicate
  by kebab-case name, the first occurrence winning; if more than 10 remain, keep the 10 of
  highest confidence; sort the kept features by confidence, descending and stable; give
  ranks 0 to 2 the priority P1, ranks 3 to 6 P2 and the rest P3; number the features from
  001 in this order.
\<close>

fun first_by_name :: "DetectedFeature list \<Rightarrow> pystr list \<Rightarrow> DetectedFeature list" where
  "first_by_name [] seen = []"
| "first_by_name (f # fs) seen =
     (if name f \<in> set seen then first_by_name fs seen else f # first_by_name fs (name f # seen))"

definition keep_top_10 :: "DetectedFeature list \<Rightarrow> DetectedFeature list" where
  "keep_top_10 fs = (if length fs > 10 then take 10 (sorted_by_confidence fs) else fs)"

definition with_rank_priorities :: "DetectedFeature list \<Rightarrow> DetectedFeature list" where
  "with_rank_priorities fs =
     map (\<lambda>i. (fs ! i)\<lparr>priority := priority_of_rank i\<rparr>) [0..<length fs]"

definition with_sequential_ids :: "DetectedFeature list \<Rightarrow> DetectedFeature list" where
  "with_sequential_ids fs = map (\<lambda>i. (fs ! i)\<lparr>id' := format_03d (i + 1)\<rparr>) [0..<length fs]"

definition specified_pipeline :: "DetectedFeature list \<Rightarrow> DetectedFeature list" where
  "specified_pipeline candidates =
     with_sequential_ids
       (with_rank_priorities (sorted_by_confidence (keep_top_10 (first_by_name candidates []))))"

text \<open>A product text with a bullet that is also an action phrase, and a solution text.\<close>

definition demo_product :: pystr where
  "demo_product = str ''- Rate it''"

definition demo_solution :: pystr where
  "demo_solution = str ''feed''"

text \<open>
  The candidates that the three passes find in these texts, and the final list. The bullet
  and the action phrase have the same kebab-case name.
\<close>

definition demo_bullet :: DetectedFeature where
  "demo_bullet =
     new_feature [] (str ''rate-it'') (str ''Rate it'') (str ''Rate it'') P1 (str ''product'')
       (85 / 100) [str ''rate it'']"

definition demo_action :: DetectedFeature where
  "demo_action =
     new_feature [] (str ''rate-it'') (str ''Rate It'') (str ''Feature: Rate It'') P2
       (str ''product'') (70 / 100) [str ''rate'', str ''it'']"

definition demo_keyword :: DetectedFeature where
  "demo_keyword =
     new_feature [] (str ''feed-management'') (str ''Feed Management'')
       (str ''Feature: Feed Management'') P3 (str ''solution'') (60 / 100) [str ''feed'']"

definition demo_features :: "DetectedFeature list" where
  "demo_features =
     [new_feature (str ''001'') (str ''rate-it'') (str ''Rate it'') (str ''Rate it'') P1
        (str ''product'') (85 / 100) [str ''rate it''],
      new_feature (str ''002'') (str ''feed-management'') (str ''Feed Management'')
        (str ''Feature: Feed Management'') P1 (str ''solution'') (60 / 100) [str ''feed'']]"

section \<open>The file system\<close>

text \<open>
  A \<^verbatim>\<open>pathlib.Path\<close> is the list of its components. The file system is a finite
  table from paths to nodes, keyed by the path as the program writes it. A node is a text
  file with its content, a file that \<^verbatim>\<open>read_text\<close> cannot decode, a directory, or a
  name whose status the operating system does not give: \<^verbatim>\<open>stat\<close> fails on it with an
  error other than that of a missing file (the name is too long, or a directory on the way
  may not be searched).
\<close>

type_synonym path = "pystr list"

datatype node = File pystr | Undecodable | Directory | NoStat

type_synonym filesystem = "(path \<times> node) list"

text \<open>
  \<^verbatim>\<open>Path.exists\<close> calls \<^verbatim>\<open>stat\<close>. It answers \<^verbatim>\<open>False\<close> when \<^verbatim>\<open>stat\<close> reports a
  missing file, and lets every other \<^verbatim>\<open>OSError\<close> of \<^verbatim>\<open>stat\<close> pass to its caller (the
  Python versions 3.11 to 3.13 do so).
\<close>

definition exists :: "filesystem \<Rightarrow> path \<Rightarrow> py_error + bool" where
  "exists fs p =
     (case map_of fs p of
        None \<Rightarrow> Inr False
      | Some NoStat \<Rightarrow> Inl OSError
      | Some n \<Rightarrow> Inr True)"

definition read_text :: "filesystem \<Rightarrow> path \<Rightarrow> py_error + pystr" where
  "read_text fs p = (case map_of fs p of Some (File c) \<Rightarrow> Inr c | _ \<Rightarrow> Inl IOError)"

text \<open>
  \<^verbatim>\<open>MarkdownParser.parse_file\<close>: \<^verbatim>\<open>FileNotFoundError\<close> for a missing file, and any
  failure of \<^verbatim>\<open>read_text\<close> re-raised as \<^verbatim>\<open>IOError\<close>. The test for the file is not
  guarded: what \<^verbatim>\<open>exists\<close> raises, \<^verbatim>\<open>parse_file\<close> raises.
\<close>

definition parse_file :: "filesystem \<Rightarrow> path \<Rightarrow> py_error + pystr" where
  "parse_file fs file_path =
     (case exists fs file_path of
        Inl e \<Rightarrow> Inl e
      | Inr False \<Rightarrow> Inl FileNotFoundError
      | Inr True \<Rightarrow>
          (case read_text fs file_path of Inl e \<Rightarrow> Inl IOError | Inr c \<Rightarrow> Inr c))"

section \<open>Markdown tokens and heading ids (core/markdown\_parser.py)\<close>

text \<open>
  The markdown parser is the third-party library markdown-it; its \<^verbatim>\<open>parse\<close> is a
  parameter \<open>md\<close> of the functions below, from the text to the flat token list that the
  source iterates over. A token carries its type, its tag, its line range \<^verbatim>\<open>map\<close>
  (or \<^verbatim>\<open>None\<close>), its content and its attributes.
\<close>

record token =
  tok_type :: pystr
  tok_tag :: pystr
  tok_map :: "(nat \<times> nat) option"
  tok_content :: pystr
  tok_attrs :: "(pystr \<times> pystr) list"

type_synonym md_parser = "pystr \<Rightarrow> token list"

text \<open>
  A Python \<^verbatim>\<open>dict\<close> keeps its keys in insertion order; assigning to a key that is
  present keeps its position.
\<close>

fun dict_set :: "('k \<times> 'v) list \<Rightarrow> 'k \<Rightarrow> 'v \<Rightarrow> ('k \<times> 'v) list" where
  "dict_set [] k v = [(k, v)]"
| "dict_set ((k', v') # d) k v = (if k' = k then (k, v) # d else (k', v') # dict_set d k v)"

definition dict_keys :: "('k \<times> 'v) list \<Rightarrow> 'k list" where
  "dict_keys d = map fst d"

text \<open>
  The text of a heading is the content of the token that follows \<^verbatim>\<open>heading_open\<close>, if
  that token is \<^verbatim>\<open>inline\<close>, and empty otherwise.
\<close>

definition next_inline_content :: "token list \<Rightarrow> pystr" where
  "next_inline_content ts =
     (case ts of [] \<Rightarrow> [] | n # _ \<Rightarrow> if tok_type n = str ''inline'' then tok_content n else [])"

definition map_start :: "token \<Rightarrow> nat" where
  "map_start t = (case tok_map t of Some (a, b) \<Rightarrow> a | None \<Rightarrow> 0)"

fun heading_ids_loop :: "ucd \<Rightarrow> token list \<Rightarrow> (pystr \<times> nat) list \<Rightarrow> (pystr \<times> nat) list" where
  "heading_ids_loop U [] heading_ids = heading_ids"
| "heading_ids_loop U (t # ts) heading_ids =
     (if tok_type t = str ''heading_open''
      then (let line_number = map_start t;
                heading_text = next_inline_content ts;
                section_id = heading_to_id U heading_text
            in heading_ids_loop U ts (dict_set heading_ids section_id line_number))
      else heading_ids_loop U ts heading_ids)"

definition extract_heading_ids :: "ucd \<Rightarrow> md_parser \<Rightarrow> pystr \<Rightarrow> (pystr \<times> nat) list" where
  "extract_heading_ids U md content = heading_ids_loop U (md content) []"

section \<open>Traceability links and their validation (models/traceability.py)\<close>

datatype LinkType =
  PITCH_TO_STRATEGIC | STRATEGIC_TO_PITCH | STRATEGIC_TO_FEATURE | FEATURE_TO_STRATEGIC
  | FEATURE_TO_PITCH

datatype LinkValidationState = VALID | BROKEN_FILE | BROKEN_SECTION | MISSING_SOURCE

text \<open>
  The private field \<^verbatim>\<open>_validation_result\<close> of a link is written by \<^verbatim>\<open>validate\<close> and
  read nowhere; it is not part of the record. Of a \<^verbatim>\<open>LinkValidationResult\<close> the model
  keeps the state; the message and the suggestion are display texts.
\<close>

record TraceabilityLink =
  source_file :: path
  source_line :: nat
  target_file :: path
  target_section :: "pystr option"
  link_text :: "pystr option"
  link_type :: "LinkType option"

text \<open>
  \<^verbatim>\<open>TraceabilityLink.validate\<close>: the source file, then the target file, then the section.
  The two tests \<^verbatim>\<open>self.source_file.exists()\<close> and \<^verbatim>\<open>self.target_file.exists()\<close> stand
  before the \<^verbatim>\<open>try\<close>: what they raise, \<^verbatim>\<open>validate\<close> raises. An exception while the
  target is read or parsed is caught and reported as \<^verbatim>\<open>BROKEN_FILE\<close>.
\<close>

definition validate ::
  "ucd \<Rightarrow> md_parser \<Rightarrow> filesystem \<Rightarrow> TraceabilityLink \<Rightarrow> py_error + LinkValidationState"
where
  "validate U md fs l =
     (case exists fs (source_file l) of
        Inl e \<Rightarrow> Inl e
      | Inr False \<Rightarrow> Inr MISSING_SOURCE
      | Inr True \<Rightarrow>
          (case exists fs (target_file l) of
             Inl e \<Rightarrow> Inl e
           | Inr False \<Rightarrow> Inr BROKEN_FILE
           | Inr True \<Rightarrow>
               if truthy (target_section l)
               then (case parse_file fs (target_file l) of
                       Inl e \<Rightarrow> Inr BROKEN_FILE
                     | Inr content \<Rightarrow>
                         (let heading_ids = extract_heading_ids U md content
                          in if the (target_section l) \<notin> set (dict_keys heading_ids)
                             then Inr BROKEN_SECTION else Inr VALID))
               else Inr VALID))"

section \<open>Validation of many links (core/link\_validator.py)\<close>

definition validate_link ::
  "ucd \<Rightarrow> md_parser \<Rightarrow> filesystem \<Rightarrow> TraceabilityLink \<Rightarrow> py_error + LinkValidationState"
where
  "validate_link U md fs link = validate U md fs link"

text \<open>
  \<^verbatim>\<open>validate_all_links_async\<close> creates one task per link, in the order of the list;
  each task runs \<^verbatim>\<open>validate_link\<close> in the executor and returns the pair of its link
  and the result, or raises what \<^verbatim>\<open>validate_link\<close> raises. The order in which the
  executor finishes the tasks is not fixed by the program: it is the parameter
  \<open>schedule\<close>, the list of task indices in the order of completion.

  \<^verbatim>\<open>asyncio.gather\<close> is called without \<^verbatim>\<open>return_exceptions\<close>. A task that finishes
  with a result stores it in its own slot; the first task that finishes with an exception
  makes \<^verbatim>\<open>gather\<close> raise that exception at once. \<^verbatim>\<open>gather\<close> returns once every task
  has finished, with the results in the order of the tasks. \<open>gather\<close> is \<open>None\<close> when
  no task raises and some task never finishes.
\<close>

type_synonym schedule = "nat list"

definition validate_one ::
  "ucd \<Rightarrow> md_parser \<Rightarrow> filesystem \<Rightarrow> TraceabilityLink
   \<Rightarrow> py_error + TraceabilityLink \<times> LinkValidationState"
where
  "validate_one U md fs link =
     (case validate_link U md fs link of Inl e \<Rightarrow> Inl e | Inr result \<Rightarrow> Inr (link, result))"

fun gather_loop ::
  "(nat \<Rightarrow> py_error + 'r) \<Rightarrow> nat \<Rightarrow> schedule \<Rightarrow> (nat \<Rightarrow> 'r option)
   \<Rightarrow> (py_error + 'r list) option"
where
  "gather_loop task n [] slots =
     (if list_all (\<lambda>i. slots i \<noteq> None) [0..<n]
      then Some (Inr (map (\<lambda>i. the (slots i)) [0..<n])) else None)"
| "gather_loop task n (i # schedule) slots =
     (if i < n \<and> slots i = None
      then (case task i of
              Inl e \<Rightarrow> Some (Inl e)
            | Inr r \<Rightarrow> gather_loop task n schedule (slots(i \<mapsto> r)))
      else gather_loop task n schedule slots)"

definition gather :: "(nat \<Rightarrow> py_error + 'r) \<Rightarrow> nat \<Rightarrow> schedule \<Rightarrow> (py_error + 'r list) option" where
  "gather task n schedule = gather_loop task n schedule (\<lambda>i. None)"

definition validate_all_links_async ::
  "ucd \<Rightarrow> md_parser \<Rightarrow> filesystem \<Rightarrow> schedule \<Rightarrow> TraceabilityLink list
   \<Rightarrow> (py_error + (TraceabilityLink \<times> LinkValidationState) list) option"
where
  "validate_all_links_async U md fs schedule links =
     gather (\<lambda>i. validate_one U md fs (links ! i)) (length links) schedule"

definition validate_all_links ::
  "ucd \<Rightarrow> md_parser \<Rightarrow> filesystem \<Rightarrow> schedule \<Rightarrow> TraceabilityLink list
   \<Rightarrow> (py_error + (TraceabilityLink \<times> LinkValidationState) list) option"
where
  "validate_all_links U md fs schedule links = validate_all_links_async U md fs schedule links"

text \<open>
  The list comprehension \<^verbatim>\<open>[(link, link.validate()) for link in links]\<close>: the links one
  after the other, in the order of the list; the first validation that raises ends it.
\<close>

fun sequential_validation ::
  "ucd \<Rightarrow> md_parser \<Rightarrow> filesystem \<Rightarrow> TraceabilityLink list
   \<Rightarrow> py_error + (TraceabilityLink \<times> LinkValidationState) list"
where
  "sequential_validation U md fs [] = Inr []"
| "sequential_validation U md fs (link # links) =
     (case validate U md fs link of
        Inl e \<Rightarrow> Inl e
      | Inr result \<Rightarrow>
          (case sequential_validation U md fs links of
             Inl e \<Rightarrow> Inl e
           | Inr rest \<Rightarrow> Inr ((link, result) # rest)))"

section \<open>Checklist completion (models/checklist.py)\<close>

text \<open>
  \<^verbatim>\<open>ChecklistItem\<close> and \<^verbatim>\<open>Checklist\<close> as records. The time stamp of a checklist plays no
  part in any function modelled here and is left out.
\<close>

datatype ConstitutionType = STRATEGIC | FEATURE

record ChecklistItem =
  item_id :: pystr
  description :: pystr
  is_checked :: bool
  category :: pystr

record Checklist =
  checklist_id :: pystr
  constitution_file :: "pystr list"
  constitution_type :: ConstitutionType
  items :: "ChecklistItem list"

text \<open>
  Python's \<^verbatim>\<open>/\<close> raises \<^verbatim>\<open>ZeroDivisionError\<close> on a zero divisor. The quotient
  is computed over the reals: the rounding of the two floating-point operations is not
  part of the model.
\<close>

definition truediv :: "real \<Rightarrow> real \<Rightarrow> py_error + real" where
  "truediv a b = (if b = 0 then Inl ZeroDivisionError else Inr (a / b))"

text \<open>
  \<^verbatim>\<open>
  if not self.items:
      return 0.0
  checked_count = sum(1 for item in self.items if item.is_checked)
  return (checked_count / len(self.items)) * 100.0
  \<close>
\<close>

definition calculate_completion :: "Checklist \<Rightarrow> py_error + real" where
  "calculate_completion c =
     (if items c = [] then Inr 0
      else (let checked_count = length (filter is_checked (items c)) in
            case truediv (real checked_count) (real (length (items c))) of
              Inl e \<Rightarrow> Inl e
            | Inr q \<Rightarrow> Inr (q * 100)))"

text \<open>
  The texts of the headings of a token list, in document order: what the heading index
  of a file is built from.
\<close>

fun heading_texts :: "token list \<Rightarrow> pystr list" where
  "heading_texts [] = []"
| "heading_texts (t # ts) =
     (if tok_type t = str ''heading_open'' then next_inline_content ts # heading_texts ts
      else heading_texts ts)"

section \<open>Installation rollback (core/installer.py)\<close>

text \<open>
  \<^verbatim>\<open>InstallationRollback\<close> keeps the paths it is told about in two lists, in the order
  of the calls. A path is added only if it does not exist at the time of the call. The
  test \<^verbatim>\<open>path.exists()\<close> is not guarded: what it raises, the call raises.
\<close>

record InstallationRollback =
  created_files :: "path list"
  created_dirs :: "path list"

definition new_tracker :: InstallationRollback where
  "new_tracker = \<lparr>created_files = [], created_dirs = []\<rparr>"

definition track_file ::
  "filesystem \<Rightarrow> InstallationRollback \<Rightarrow> path \<Rightarrow> py_error + InstallationRollback"
where
  "track_file fs tracker p =
     (case exists fs p of
        Inl e \<Rightarrow> Inl e
      | Inr False \<Rightarrow> Inr (tracker\<lparr>created_files := created_files tracker @ [p]\<rparr>)
      | Inr True \<Rightarrow> Inr tracker)"

definition track_dir ::
  "filesystem \<Rightarrow> InstallationRollback \<Rightarrow> path \<Rightarrow> py_error + InstallationRollback"
where
  "track_dir fs tracker p =
     (case exists fs p of
        Inl e \<Rightarrow> Inl e
      | Inr False \<Rightarrow> Inr (tracker\<lparr>created_dirs := created_dirs tracker @ [p]\<rparr>)
      | Inr True \<Rightarrow> Inr tracker)"

text \<open>
  The operations of \<^verbatim>\<open>pathlib\<close> that change the file system. \<open>permitted\<close> says for
  which paths the operating system allows the removal. \<^verbatim>\<open>unlink\<close> raises on a
  directory, \<^verbatim>\<open>iterdir\<close> and \<^verbatim>\<open>rmdir\<close> raise on anything else, and \<^verbatim>\<open>rmdir\<close>
  raises on a directory that has entries. The entries of a directory are the paths of
  the table whose parent it is.
\<close>

definition remove_path :: "filesystem \<Rightarrow> path \<Rightarrow> filesystem" where
  "remove_path fs p = filter (\<lambda>(q, n). q \<noteq> p) fs"

definition entries :: "filesystem \<Rightarrow> path \<Rightarrow> path list" where
  "entries fs d = filter (\<lambda>q. q \<noteq> [] \<and> butlast q = d) (map fst fs)"

definition unlink :: "(path \<Rightarrow> bool) \<Rightarrow> filesystem \<Rightarrow> path \<Rightarrow> py_error + filesystem" where
  "unlink permitted fs p =
     (case map_of fs p of
        None \<Rightarrow> Inl FileNotFoundError
      | Some Directory \<Rightarrow> Inl IOError
      | Some NoStat \<Rightarrow> Inl OSError
      | Some n \<Rightarrow> if permitted p then Inr (remove_path fs p) else Inl IOError)"

definition iterdir :: "filesystem \<Rightarrow> path \<Rightarrow> py_error + path list" where
  "iterdir fs d =
     (case map_of fs d of
        None \<Rightarrow> Inl FileNotFoundError
      | Some Directory \<Rightarrow> Inr (entries fs d)
      | Some n \<Rightarrow> Inl IOError)"

definition rmdir :: "(path \<Rightarrow> bool) \<Rightarrow> filesystem \<Rightarrow> path \<Rightarrow> py_error + filesystem" where
  "rmdir permitted fs d =
     (case map_of fs d of
        None \<Rightarrow> Inl FileNotFoundError
      | Some Directory \<Rightarrow>
          if entries fs d = [] \<and> permitted d then Inr (remove_path fs d) else Inl IOError
      | Some n \<Rightarrow> Inl IOError)"

text \<open>
  The lines that \<^verbatim>\<open>rollback\<close> prints, in order: they record what it did. A run of
  \<^verbatim>\<open>rollback\<close> ends with the file system and the lines it has reached, and with the
  exception that ended it, if one did: the tests \<^verbatim>\<open>file_path.exists()\<close> and
  \<^verbatim>\<open>dir_path.exists()\<close> stand before the \<^verbatim>\<open>try\<close>.
\<close>

datatype console_line =
  RollingBack | DeletedFile path | DeletedDir path | SkippedDir path | CouldNotDelete path
  | RollbackComplete

type_synonym rollback_state = "(filesystem \<times> console_line list) \<times> py_error option"

text \<open>
  \<^verbatim>\<open>
  for file_path in reversed(self.created_files):
      if file_path.exists():
          try:
              file_path.unlink()
              console.print(f"  [dim]Deleted {file_path}[/dim]")
          except Exception as e:
              console.print(f"  [yellow]Warning: Could not delete {file_path}: {e}[/yellow]")
  \<close>
\<close>

fun rollback_files ::
  "(path \<Rightarrow> bool) \<Rightarrow> path list \<Rightarrow> filesystem \<times> console_line list \<Rightarrow> rollback_state"
where
  "rollback_files permitted [] st = (st, None)"
| "rollback_files permitted (file_path # ps) (fs, out) =
     (case exists fs file_path of
        Inl e \<Rightarrow> ((fs, out), Some e)
      | Inr True \<Rightarrow>
          (case unlink permitted fs file_path of
             Inr fs' \<Rightarrow> rollback_files permitted ps (fs', out @ [DeletedFile file_path])
           | Inl e \<Rightarrow> rollback_files permitted ps (fs, out @ [CouldNotDelete file_path]))
      | Inr False \<Rightarrow> rollback_files permitted ps (fs, out))"

text \<open>
  \<^verbatim>\<open>
  for dir_path in reversed(self.created_dirs):
      if dir_path.exists():
          try:
              if not any(dir_path.iterdir()):
                  dir_path.rmdir()
                  console.print(f"  [dim]Deleted {dir_path}/[/dim]")
              else:
                  console.print(f"  [yellow]Skipped {dir_path}/ (not empty)[/yellow]")
          except Exception as e:
              console.print(f"  [yellow]Warning: Could not delete {dir_path}: {e}[/yellow]")
  \<close>
\<close>

fun rollback_dirs ::
  "(path \<Rightarrow> bool) \<Rightarrow> path list \<Rightarrow> filesystem \<times> console_line list \<Rightarrow> rollback_state"
where
  "rollback_dirs permitted [] st = (st, None)"
| "rollback_dirs permitted (dir_path # ds) (fs, out) =
     (case exists fs dir_path of
        Inl e \<Rightarrow> ((fs, out), Some e)
      | Inr True \<Rightarrow>
          (case iterdir fs dir_path of
             Inl e \<Rightarrow> rollback_dirs permitted ds (fs, out @ [CouldNotDelete dir_path])
           | Inr es \<Rightarrow>
               if es = []
               then (case rmdir permitted fs dir_path of
                       Inr fs' \<Rightarrow> rollback_dirs permitted ds (fs', out @ [DeletedDir dir_path])
                     | Inl e \<Rightarrow>
                         rollback_dirs permitted ds (fs, out @ [CouldNotDelete dir_path]))
               else rollback_dirs permitted ds (fs, out @ [SkippedDir dir_path]))
      | Inr False \<Rightarrow> rollback_dirs permitted ds (fs, out))"

definition rollback ::
  "(path \<Rightarrow> bool) \<Rightarrow> InstallationRollback \<Rightarrow> filesystem \<Rightarrow> rollback_state"
where
  "rollback permitted tracker fs =
     (case rollback_files permitted (rev (created_files tracker)) (fs, [RollingBack]) of
        (st, Some e) \<Rightarrow> (st, Some e)
      | (st, None) \<Rightarrow>
          (case rollback_dirs permitted (rev (created_dirs tracker)) st of
             (st', Some e) \<Rightarrow> (st', Some e)
           | ((fs', out), None) \<Rightarrow> ((fs', out @ [RollbackComplete]), None)))"

text \<open>The files and the directories that a run reports as deleted, in the order of the report.\<close>

fun deleted_files :: "console_line list \<Rightarrow> path list" where
  "deleted_files [] = []"
| "deleted_files (DeletedFile p # out) = p # deleted_files out"
| "deleted_files (l # out) = deleted_files out"

fun deleted_dirs :: "console_line list \<Rightarrow> path list" where
  "deleted_dirs [] = []"
| "deleted_dirs (DeletedDir p # out) = p # deleted_dirs out"
| "deleted_dirs (l # out) = deleted_dirs out"

fun is_deletion :: "console_line \<Rightarrow> bool" where
  "is_deletion (DeletedFile p) = True"
| "is_deletion (DeletedDir p) = True"
| "is_deletion l = False"

text \<open>
  The installation made everything that is in its directories: each entry of a tracked
  directory is a tracked file that can be unlinked, or a directory that was tracked after
  it. The list is in the order of tracking.
\<close>

definition removable_file :: "(path \<Rightarrow> bool) \<Rightarrow> filesystem \<Rightarrow> path \<Rightarrow> bool" where
  "removable_file permitted fs q =
     (permitted q \<and> (case map_of fs q of Some (File c) \<Rightarrow> True | Some Undecodable \<Rightarrow> True
                       | _ \<Rightarrow> False))"

fun wholly_tracked :: "(path \<Rightarrow> bool) \<Rightarrow> filesystem \<Rightarrow> path list \<Rightarrow> path list \<Rightarrow> bool" where
  "wholly_tracked permitted fs files [] = True"
| "wholly_tracked permitted fs files (d # later) =
     ((map_of fs d = None \<or> map_of fs d = Some Directory) \<and> permitted d
      \<and> list_all (\<lambda>q. q \<in> set later \<or> (q \<in> set files \<and> removable_file permitted fs q))
           (entries fs d)
      \<and> wholly_tracked permitted fs files later)"

text \<open>
  Every entry of a directory of the list is a directory that stands later in the list.
\<close>

fun nested :: "filesystem \<Rightarrow> path list \<Rightarrow> bool" where
  "nested fs [] = True"
| "nested fs (d # later) = (set (entries fs d) \<subseteq> set later \<and> nested fs later)"

section \<open>Constitutions (models/constitution.py)\<close>

text \<open>
  \<^verbatim>\<open>MarkdownLink\<close> (core/markdown\_parser.py) has the attributes \<^verbatim>\<open>text\<close> (here \<open>text'\<close>), \<^verbatim>\<open>url\<close>
  and \<^verbatim>\<open>line_number\<close>, and no others.
\<close>

record MarkdownLink =
  text' :: pystr
  url :: pystr
  line_number :: nat

text \<open>
  Python checks no type annotation at run time: a list of links can hold objects of
  either link class, and reading an attribute that the object's class does not have raises
  \<^verbatim>\<open>AttributeError\<close>.
\<close>

datatype link_object = MarkdownLinkObj MarkdownLink | TraceabilityLinkObj TraceabilityLink

definition get_target_file :: "link_object \<Rightarrow> py_error + path" where
  "get_target_file link =
     (case link of MarkdownLinkObj m \<Rightarrow> Inl AttributeError
      | TraceabilityLinkObj l \<Rightarrow> Inr (target_file l))"

definition get_target_section :: "link_object \<Rightarrow> py_error + pystr option" where
  "get_target_section link =
     (case link of MarkdownLinkObj m \<Rightarrow> Inl AttributeError
      | TraceabilityLinkObj l \<Rightarrow> Inr (target_section l))"

definition get_url :: "link_object \<Rightarrow> py_error + pystr" where
  "get_url link =
     (case link of MarkdownLinkObj m \<Rightarrow> Inr (url m)
      | TraceabilityLinkObj l \<Rightarrow> Inl AttributeError)"

text \<open>The class \<^verbatim>\<open>Principle\<close> of models/constitution.py.\<close>

record ConstitutionPrinciple =
  principle_id :: pystr
  title :: pystr
  rule :: pystr
  source_link :: "pystr option"
  test_criteria :: "pystr option"

text \<open>
  \<^verbatim>\<open>Constitution\<close>. Its constructor declares \<^verbatim>\<open>upstream_links: list[MarkdownLink]\<close>, and
  \<^verbatim>\<open>Constitution.parse\<close>, the one place that builds constitutions, fills the list with
  the \<^verbatim>\<open>MarkdownLink\<close> objects of \<^verbatim>\<open>extract_links\<close>.
\<close>

record Constitution =
  file_path :: path
  constitution_type :: ConstitutionType
  name :: pystr
  version :: pystr
  principles :: "ConstitutionPrinciple list"
  upstream_links :: "link_object list"
  downstream_links :: "link_object list"

section \<open>Paths as text\<close>

text \<open>
  \<^verbatim>\<open>str(path)\<close> joins the components by \<^verbatim>\<open>/\<close>; the root of an absolute path is the
  component \<^verbatim>\<open>/\<close> itself. \<^verbatim>\<open>path.stem\<close> is the last component without its last suffix:
  \<^verbatim>\<open>
  i = name.rfind('.')
  if 0 < i < len(name) - 1: return name[:i]
  else: return name
  \<close>
\<close>

definition path_str :: "path \<Rightarrow> pystr" where
  "path_str p =
     (case p of [] \<Rightarrow> str ''.''
      | c # cs \<Rightarrow> if c = str ''/'' then c @ join (str ''/'') cs else join (str ''/'') p)"

definition path_name :: "path \<Rightarrow> pystr" where
  "path_name p = (case p of [] \<Rightarrow> [] | c # cs \<Rightarrow> if last p = str ''/'' then [] else last p)"

fun rfind :: "pystr \<Rightarrow> nat \<Rightarrow> nat option" where
  "rfind [] c = None"
| "rfind (x # xs) c =
     (case rfind xs c of Some i \<Rightarrow> Some (Suc i) | None \<Rightarrow> if x = c then Some 0 else None)"

definition path_stem :: "path \<Rightarrow> pystr" where
  "path_stem p =
     (let name = path_name p in
      case rfind name 46 of
        Some i \<Rightarrow> if 0 < i \<and> i + 1 < length name then take i name else name
      | None \<Rightarrow> name)"

text \<open>\<^verbatim>\<open>needle in text\<close> for strings.\<close>

fun contains :: "pystr \<Rightarrow> pystr \<Rightarrow> bool" where
  "contains needle [] = (needle = [])"
| "contains needle (c # cs) = (prefix needle (c # cs) \<or> contains needle cs)"

section \<open>Circular dependencies and orphaned principles (core/conflict\_detector.py)\<close>

text \<open>
  The order in which a \<^verbatim>\<open>for\<close> loop visits a set is not fixed by the program; it is
  the parameter \<open>set_order\<close>, which rearranges the elements.
\<close>

type_synonym graph = "(pystr \<times> pystr list) list"

text \<open>
  \<^verbatim>\<open>
  for link in constitution.upstream_links:
      if "/features/" in str(link.target_file):
          target_name = link.target_file.stem
          deps.add(target_name)
  \<close>
\<close>

fun collect_deps :: "link_object list \<Rightarrow> pystr list \<Rightarrow> py_error + pystr list" where
  "collect_deps [] deps = Inr deps"
| "collect_deps (link # links) deps =
     (case get_target_file link of
        Inl e \<Rightarrow> Inl e
      | Inr target \<Rightarrow>
          if contains (str ''/features/'') (path_str target)
          then collect_deps links (set_add (path_stem target) deps)
          else collect_deps links deps)"

fun build_graph :: "Constitution list \<Rightarrow> graph \<Rightarrow> py_error + graph" where
  "build_graph [] graph = Inr graph"
| "build_graph (constitution # cs) graph =
     (case collect_deps (upstream_links constitution) [] of
        Inl e \<Rightarrow> Inl e
      | Inr deps \<Rightarrow> build_graph cs (dict_set graph (name constitution) deps))"

definition graph_get :: "graph \<Rightarrow> pystr \<Rightarrow> pystr list" where
  "graph_get graph node = (case map_of graph node of Some deps \<Rightarrow> deps | None \<Rightarrow> [])"

text \<open>\<^verbatim>\<open>path.index(x)\<close> raises \<^verbatim>\<open>ValueError\<close> when \<open>x\<close> is not in the list.\<close>

fun index :: "'a list \<Rightarrow> 'a \<Rightarrow> nat option" where
  "index [] x = None"
| "index (y # ys) x = (if y = x then Some 0 else map_option Suc (index ys x))"

text \<open>
  The nested function \<^verbatim>\<open>dfs\<close> shares \<^verbatim>\<open>visited\<close>, \<^verbatim>\<open>rec_stack\<close> and \<^verbatim>\<open>cycles\<close> with
  its enclosing function; each call works on its own copy of \<^verbatim>\<open>path\<close>. The first
  argument is the number of nested calls that the interpreter still allows: at 0 the call
  raises \<^verbatim>\<open>RecursionError\<close>.
  \<^verbatim>\<open>
  def dfs(node, path):
      visited.add(node); rec_stack.add(node); path.append(node)
      for neighbor in graph.get(node, set()):
          if neighbor not in visited:
              dfs(neighbor, path[:])
          elif neighbor in rec_stack:
              cycle_start = path.index(neighbor)
              cycle = path[cycle_start:] + [neighbor]
              cycles.append(cycle)
      rec_stack.remove(node)
  \<close>
\<close>

record dfs_state =
  visited :: "pystr list"
  rec_stack :: "pystr list"
  cycles :: "pystr list list"

text \<open>
  The loop over the neighbours of a node; \<open>call\<close> stands for the nested call
  \<^verbatim>\<open>dfs(neighbor, path[:])\<close>.
\<close>

fun dfs_neighbors ::
  "(pystr \<Rightarrow> pystr list \<Rightarrow> dfs_state \<Rightarrow> py_error + dfs_state) \<Rightarrow> pystr list \<Rightarrow> pystr list
   \<Rightarrow> dfs_state \<Rightarrow> py_error + dfs_state"
where
  "dfs_neighbors call [] path st = Inr st"
| "dfs_neighbors call (neighbor # ns) path st =
     (if neighbor \<notin> set (visited st)
      then (case call neighbor path st of
              Inl e \<Rightarrow> Inl e
            | Inr st' \<Rightarrow> dfs_neighbors call ns path st')
      else if neighbor \<in> set (rec_stack st)
      then (case index path neighbor of
              None \<Rightarrow> Inl ValueError
            | Some cycle_start \<Rightarrow>
                dfs_neighbors call ns path
                  (st\<lparr>cycles := cycles st @ [drop cycle_start path @ [neighbor]]\<rparr>))
      else dfs_neighbors call ns path st)"

primrec dfs ::
  "nat \<Rightarrow> graph \<Rightarrow> (pystr list \<Rightarrow> pystr list) \<Rightarrow> pystr \<Rightarrow> pystr list \<Rightarrow> dfs_state
   \<Rightarrow> py_error + dfs_state"
where
  "dfs 0 graph set_order = (\<lambda>node path st. Inl RecursionError)"
| "dfs (Suc depth) graph set_order =
     (\<lambda>node path st.
        let st1 = st\<lparr>visited := set_add node (visited st),
                      rec_stack := set_add node (rec_stack st)\<rparr>;
            path1 = path @ [node]
        in case dfs_neighbors (dfs depth graph set_order) (set_order (graph_get graph node))
                  path1 st1 of
             Inl e \<Rightarrow> Inl e
           | Inr st2 \<Rightarrow> Inr (st2\<lparr>rec_stack := set_remove node (rec_stack st2)\<rparr>))"

text \<open>
  \<^verbatim>\<open>
  for node in graph:
      if node not in visited:
          dfs(node, [])
  \<close>
\<close>

fun dfs_all ::
  "nat \<Rightarrow> graph \<Rightarrow> (pystr list \<Rightarrow> pystr list) \<Rightarrow> pystr list \<Rightarrow> dfs_state
   \<Rightarrow> py_error + dfs_state"
where
  "dfs_all limit graph set_order [] st = Inr st"
| "dfs_all limit graph set_order (node # nodes) st =
     (if node \<notin> set (visited st)
      then (case dfs limit graph set_order node [] st of
              Inl e \<Rightarrow> Inl e
            | Inr st' \<Rightarrow> dfs_all limit graph set_order nodes st')
      else dfs_all limit graph set_order nodes st)"

definition detect_circular_dependencies ::
  "nat \<Rightarrow> (pystr list \<Rightarrow> pystr list) \<Rightarrow> Constitution list \<Rightarrow> py_error + pystr list list"
where
  "detect_circular_dependencies limit set_order constitutions =
     (case build_graph constitutions [] of
        Inl e \<Rightarrow> Inl e
      | Inr graph \<Rightarrow>
          (case dfs_all limit graph set_order (dict_keys graph)
                  \<lparr>visited = [], rec_stack = [], cycles = []\<rparr> of
             Inl e \<Rightarrow> Inl e
           | Inr st \<Rightarrow> Inr (cycles st)))"

text \<open>
  \<^verbatim>\<open>get_orphaned_principles\<close>, first loop:
  \<^verbatim>\<open>
  for link in constitution.upstream_links:
      if link.target_section:
          target_name = link.target_file.stem
          ref_key = f"{target_name}#{link.target_section}"
          referenced_principles.add(ref_key)
  \<close>
\<close>

definition ref_key :: "pystr \<Rightarrow> pystr \<Rightarrow> pystr" where
  "ref_key target_name section = target_name @ str ''#'' @ section"

fun collect_refs :: "link_object list \<Rightarrow> pystr list \<Rightarrow> py_error + pystr list" where
  "collect_refs [] refs = Inr refs"
| "collect_refs (link # links) refs =
     (case get_target_section link of
        Inl e \<Rightarrow> Inl e
      | Inr section \<Rightarrow>
          if truthy section
          then (case get_target_file link of
                  Inl e \<Rightarrow> Inl e
                | Inr target \<Rightarrow>
                    collect_refs links (set_add (ref_key (path_stem target) (the section)) refs))
          else collect_refs links refs)"

fun referenced_principles :: "Constitution list \<Rightarrow> pystr list \<Rightarrow> py_error + pystr list" where
  "referenced_principles [] refs = Inr refs"
| "referenced_principles (constitution # cs) refs =
     (case collect_refs (upstream_links constitution) refs of
        Inl e \<Rightarrow> Inl e
      | Inr refs' \<Rightarrow> referenced_principles cs refs')"

text \<open>
  Second loop:
  \<^verbatim>\<open>
  for constitution in constitutions:
      if constitution.constitution_type.value == "strategic":
          for principle in constitution.principles:
              ref_key = f"{constitution.name}#{principle.principle_id}"
              if ref_key not in referenced_principles:
                  orphaned.append((constitution.name, principle.principle_id))
  \<close>
\<close>

definition orphans_of :: "pystr list \<Rightarrow> Constitution \<Rightarrow> (pystr \<times> pystr) list" where
  "orphans_of refs constitution =
     (if constitution_type constitution = STRATEGIC
      then map (\<lambda>p. (name constitution, principle_id p))
             (filter (\<lambda>p. ref_key (name constitution) (principle_id p) \<notin> set refs)
                (principles constitution))
      else [])"

definition get_orphaned_principles :: "Constitution list \<Rightarrow> py_error + (pystr \<times> pystr) list" where
  "get_orphaned_principles constitutions =
     (case referenced_principles constitutions [] of
        Inl e \<Rightarrow> Inl e
      | Inr refs \<Rightarrow> Inr (concat (map (orphans_of refs) constitutions)))"

section \<open>Reference keys of a list of constitutions\<close>

text \<open>
  The keys \<^verbatim>\<open>target_file_stem#target_section\<close> of the upstream links of the class
  \<^verbatim>\<open>TraceabilityLink\<close> that carry a target section, over all constitutions of a list.
\<close>

fun is_traceability :: "link_object \<Rightarrow> bool" where
  "is_traceability (TraceabilityLinkObj l) = True"
| "is_traceability (MarkdownLinkObj m) = False"

definition link_keys :: "link_object list \<Rightarrow> pystr set" where
  "link_keys links =
     {ref_key (path_stem (target_file l)) (the (target_section l)) | l.
        TraceabilityLinkObj l \<in> set links \<and> truthy (target_section l)}"

definition referenced_keys :: "Constitution list \<Rightarrow> pystr set" where
  "referenced_keys cs = (\<Union>c \<in> set cs. link_keys (upstream_links c))"

section \<open>Example inputs\<close>

text \<open>
  A small file system: a feature constitution, a strategic constitution with one
  heading, and the directory that holds the latter. \<open>demo_md\<close> gives the tokens that
  markdown-it returns for the one text with a heading.
\<close>

definition demo_fs :: filesystem where
  "demo_fs = [([str ''features'', str ''001.md''], File (str ''x'')),
              ([str ''memory'', str ''company.md''], File (str ''# Core Values'')),
              ([str ''memory''], Directory)]"

definition demo_md :: md_parser where
  "demo_md content =
     (if content = str ''# Core Values''
      then [\<lparr>tok_type = str ''heading_open'', tok_tag = str ''h1'', tok_map = Some (0, 1),
              tok_content = [], tok_attrs = []\<rparr>,
            \<lparr>tok_type = str ''inline'', tok_tag = [], tok_map = Some (0, 1),
              tok_content = str ''Core Values'', tok_attrs = []\<rparr>,
            \<lparr>tok_type = str ''heading_close'', tok_tag = str ''h1'', tok_map = None,
              tok_content = [], tok_attrs = []\<rparr>]
      else [])"

definition demo_link :: "path \<Rightarrow> pystr option \<Rightarrow> TraceabilityLink" where
  "demo_link target section =
     \<lparr>source_file = [str ''features'', str ''001.md''], source_line = 10,
      target_file = target, target_section = section, link_text = None, link_type = None\<rparr>"

text \<open>
  An installation that failed half way: the directory \<^verbatim>\<open>deck\<close> and its file
  \<^verbatim>\<open>README.md\<close> were tracked and created, the directory \<^verbatim>\<open>cache\<close> was tracked and
  created and then received a file that is not tracked, and \<^verbatim>\<open>user\<close> with its file was
  there before.
\<close>

definition install_fs :: filesystem where
  "install_fs = [([str ''user''], Directory),
                 ([str ''user'', str ''notes.txt''], File (str ''mine'')),
                 ([str ''deck''], Directory),
                 ([str ''deck'', str ''README.md''], File (str ''# Deck'')),
                 ([str ''cache''], Directory),
                 ([str ''cache'', str ''data''], File (str ''0''))]"

definition install_tracker :: InstallationRollback where
  "install_tracker =
     \<lparr>created_files = [[str ''deck'', str ''README.md'']],
      created_dirs = [[str ''deck''], [str ''cache'']]\<rparr>"

text \<open>
  An installation that made a directory, a directory in it and a file in each, beside a
  directory that was there before; and a file system with a name that is too long.
\<close>

definition nested_fs :: filesystem where
  "nested_fs = [([str ''user''], Directory),
                ([str ''deck''], Directory),
                ([str ''deck'', str ''README.md''], File (str ''# Deck'')),
                ([str ''deck'', str ''img''], Directory),
                ([str ''deck'', str ''img'', str ''logo.svg''], Undecodable)]"

definition nested_tracker :: InstallationRollback where
  "nested_tracker =
     \<lparr>created_files = [[str ''deck'', str ''README.md''], [str ''deck'', str ''img'', str ''logo.svg'']],
      created_dirs = [[str ''deck''], [str ''deck'', str ''img'']]\<rparr>"

definition long_name :: path where
  "long_name = [replicate 300 97]"

definition nostat_fs :: filesystem where
  "nostat_fs = [(long_name, NoStat), ([str ''features'', str ''001.md''], File (str ''x''))]"

text \<open>
  Two feature constitutions that depend on each other, with upstream links of the class
  that \<^verbatim>\<open>Constitution\<close> declares and \<^verbatim>\<open>Constitution.parse\<close> produces, and the same
  two with links of the class \<^verbatim>\<open>TraceabilityLink\<close>.
\<close>

definition feature_constitution :: "pystr \<Rightarrow> link_object list \<Rightarrow> Constitution" where
  "feature_constitution n links =
     \<lparr>file_path = [str ''.specify'', str ''features'', n @ str ''.md''],
      constitution_type = FEATURE, name = n, version = str ''1.0.0'', principles = [],
      upstream_links = links, downstream_links = []\<rparr>"

definition md_link_to :: "pystr \<Rightarrow> link_object" where
  "md_link_to u = MarkdownLinkObj \<lparr>text' = str ''see'', url = u, line_number = 12\<rparr>"

definition trace_link_to :: "path \<Rightarrow> pystr option \<Rightarrow> link_object" where
  "trace_link_to target section = TraceabilityLinkObj (demo_link target section)"

definition users_md :: Constitution where
  "users_md = feature_constitution (str ''001-users'')
     [md_link_to (str ''../memory/../features/002-auth.md'')]"

definition auth_md :: Constitution where
  "auth_md = feature_constitution (str ''002-auth'')
     [md_link_to (str ''../memory/../features/001-users.md'')]"

definition users_tl :: Constitution where
  "users_tl = feature_constitution (str ''001-users'')
     [trace_link_to [str ''.specify'', str ''features'', str ''002-auth.md''] None]"

definition auth_tl :: Constitution where
  "auth_tl = feature_constitution (str ''002-auth'')
     [trace_link_to [str ''.specify'', str ''features'', str ''001-users.md''] None]"

text \<open>
  A strategic constitution with one principle and one link to the pitch deck, again with
  either class of link; with the second class, a feature constitution refers to the
  principle.
\<close>

definition company_constitution :: "link_object list \<Rightarrow> Constitution" where
  "company_constitution links =
     \<lparr>file_path = [str ''.specify'', str ''memory'', str ''company-constitution.md''],
      constitution_type = STRATEGIC, name = str ''company-constitution'',
      version = str ''1.0.0'',
      principles = [\<lparr>principle_id = str ''principle-1'', title = str ''Principle 1'',
                      rule = str ''MUST'', source_link = None, test_criteria = None\<rparr>,
                    \<lparr>principle_id = str ''principle-2'', title = str ''Principle 2'',
                      rule = str ''MUST'', source_link = None, test_criteria = None\<rparr>],
      upstream_links = links, downstream_links = []\<rparr>"

definition company_md :: Constitution where
  "company_md = company_constitution [md_link_to (str ''../deck/pitch-deck.md#problem'')]"

definition company_tl :: Constitution where
  "company_tl = company_constitution
     [trace_link_to [str ''.specify'', str ''deck'', str ''pitch-deck.md''] (Some (str ''problem''))]"

definition users_ref_tl :: Constitution where
  "users_ref_tl = feature_constitution (str ''001-users'')
     [trace_link_to [str ''.specify'', str ''memory'', str ''company-constitution.md'']
        (Some (str ''principle-1''))]"

section \<open>Theorems\<close>

lemmas ascii_defs = ascii_ucd_def ascii_lower_char_def ascii_upper_char_def ascii_isword_def
  ascii_isspace_def ascii_isupper_def ascii_islower_def ascii_isdigit_def ascii_casemates_def
  ascii_capitalize_def

lemmas text_defs = str_def hyphen_def sub_delete_def strip_def lstrip_def rstrip_def

subsection \<open>Checklist completion\<close>

text \<open>
  C9. For every checklist, \<open>calculate_completion\<close> returns a number and never raises
  \<^verbatim>\<open>ZeroDivisionError\<close>: the number is 0 for a checklist without items, and otherwise
  the number of checked items divided by the number of items, times 100.
\<close>

theorem calculate_completion_value:
  "calculate_completion c =
     Inr (if items c = [] then 0
          else real (length (filter is_checked (items c))) / real (length (items c)) * 100)"
  by (simp add: calculate_completion_def truediv_def)

text \<open>One checked item of two gives 50; no item gives 0.\<close>

theorem calculate_completion_witness:
  "calculate_completion
     \<lparr>checklist_id = str ''CL001'', constitution_file = [str ''file.md''],
      constitution_type = STRATEGIC,
      items = [\<lparr>item_id = str ''1'', description = str ''Item 1'', is_checked = True,
                 category = str ''General''\<rparr>,
               \<lparr>item_id = str ''2'', description = str ''Item 2'', is_checked = False,
                 category = str ''General''\<rparr>]\<rparr> = Inr 50
   \<and> calculate_completion
     \<lparr>checklist_id = str ''CL002'', constitution_file = [str ''file.md''],
      constitution_type = STRATEGIC, items = []\<rparr> = Inr 0"
  using calculate_completion_value
    [of "\<lparr>checklist_id = str ''CL001'', constitution_file = [str ''file.md''],
      constitution_type = STRATEGIC,
      items = [\<lparr>item_id = str ''1'', description = str ''Item 1'', is_checked = True,
                 category = str ''General''\<rparr>,
               \<lparr>item_id = str ''2'', description = str ''Item 2'', is_checked = False,
                 category = str ''General''\<rparr>]\<rparr>"]
    calculate_completion_value
    [of "\<lparr>checklist_id = str ''CL002'', constitution_file = [str ''file.md''],
      constitution_type = STRATEGIC, items = []\<rparr>"]
  by simp

subsection \<open>Link validation\<close>

lemma dict_keys_dict_set: "set (dict_keys (dict_set d k v)) = insert k (set (dict_keys d))"
  by (induction d k v rule: dict_set.induct) (auto simp: dict_keys_def)

lemma heading_ids_loop_keys:
  "set (dict_keys (heading_ids_loop U ts d)) =
     set (dict_keys d) \<union> heading_to_id U ` set (heading_texts ts)"
  by (induction ts arbitrary: d) (auto simp: dict_keys_dict_set Let_def)

lemma extract_heading_ids_keys:
  "set (dict_keys (extract_heading_ids U md content)) =
     heading_to_id U ` set (heading_texts (md content))"
  using heading_ids_loop_keys [of U "md content" "[]"]
  by (simp add: extract_heading_ids_def dict_keys_def)

lemma exists_cases:
  "exists fs p =
     (if map_of fs p = None then Inr False
      else if map_of fs p = Some NoStat then Inl OSError else Inr True)"
  by (simp add: exists_def split: option.splits node.splits)

lemma validate_raises_OSError: "validate U md fs l = Inl e \<Longrightarrow> e = OSError"
  by (auto simp: validate_def exists_cases Let_def split: if_splits sum.splits)

text \<open>
  C1, as the code has it. \<open>validate\<close> raises \<open>OSError\<close> when the test for the source
  file raises it, or, the source file being there, the test for the target file does.
  Otherwise it returns one state, decided in a fixed order: a missing source file gives
  \<open>MISSING_SOURCE\<close>; otherwise a missing target file gives \<open>BROKEN_FILE\<close>; otherwise a
  link without a (non-empty) target section is \<open>VALID\<close>; otherwise a target that exists
  but cannot be read as a text gives \<open>BROKEN_FILE\<close>; otherwise the link is \<open>VALID\<close> if
  its section is the slug of some heading of the target, and \<open>BROKEN_SECTION\<close> if not.
\<close>

theorem validate_precedence:
  "validate U md fs l =
     (if exists fs (source_file l) = Inl OSError then Inl OSError
      else if exists fs (source_file l) = Inr False then Inr MISSING_SOURCE
      else if exists fs (target_file l) = Inl OSError then Inl OSError
      else if exists fs (target_file l) = Inr False then Inr BROKEN_FILE
      else if \<not> truthy (target_section l) then Inr VALID
      else (case read_text fs (target_file l) of
              Inl e \<Rightarrow> Inr BROKEN_FILE
            | Inr content \<Rightarrow>
                if the (target_section l) \<in> heading_to_id U ` set (heading_texts (md content))
                then Inr VALID else Inr BROKEN_SECTION))"
  by (simp add: validate_def parse_file_def exists_cases extract_heading_ids_keys
      split: sum.splits)

text \<open>
  A link to an existing heading is valid, a link to a heading that is not there is not, and
  a link to a name that is too long makes \<open>validate\<close> raise.
\<close>

theorem validate_precedence_witness:
  "validate ascii_ucd demo_md demo_fs
     (demo_link [str ''memory'', str ''company.md''] (Some (str ''core-values''))) = Inr VALID
   \<and> validate ascii_ucd demo_md demo_fs
     (demo_link [str ''memory'', str ''company.md''] (Some (str ''mission''))) = Inr BROKEN_SECTION
   \<and> validate ascii_ucd demo_md nostat_fs (demo_link long_name None) = Inl OSError"
  using validate_precedence [of ascii_ucd demo_md demo_fs
      "demo_link [str ''memory'', str ''company.md''] (Some (str ''core-values''))"]
    validate_precedence [of ascii_ucd demo_md demo_fs
      "demo_link [str ''memory'', str ''company.md''] (Some (str ''mission''))"]
    validate_precedence [of ascii_ucd demo_md nostat_fs "demo_link long_name None"]
  by (simp add: exists_def read_text_def demo_fs_def nostat_fs_def long_name_def demo_md_def
      demo_link_def truthy_def next_inline_content_def heading_to_id_def ascii_defs text_defs)

text \<open>
  C1 as stated fails: source and target both exist, so the stated order allows only
  \<open>BROKEN_SECTION\<close> or \<open>VALID\<close>, but the target is a directory, reading it raises, and
  the link is reported as \<open>BROKEN_FILE\<close>.
\<close>

theorem validate_counterexample:
  "exists demo_fs [str ''features'', str ''001.md''] = Inr True
   \<and> exists demo_fs [str ''memory''] = Inr True
   \<and> validate ascii_ucd demo_md demo_fs
        (demo_link [str ''memory''] (Some (str ''core-values''))) = Inr BROKEN_FILE"
  by (simp add: validate_def exists_def parse_file_def read_text_def demo_fs_def demo_link_def
      truthy_def str_def)

subsection \<open>Validation of many links\<close>

lemma gather_loop_returns:
  assumes "\<forall>i<n. slots i = None \<longrightarrow> i \<in> set sched"
    and "\<forall>i<n. task i = Inr (r i)"
    and "\<forall>i<n. slots i \<noteq> None \<longrightarrow> slots i = Some (r i)"
  shows "gather_loop task n sched slots = Some (Inr (map r [0..<n]))"
  using assms
proof (induction sched arbitrary: slots)
  case Nil
  then have filled: "\<forall>i<n. slots i = Some (r i)" by auto
  then have "list_all (\<lambda>i. slots i \<noteq> None) [0..<n]" by (simp add: list_all_iff)
  moreover have "map (\<lambda>i. the (slots i)) [0..<n] = map r [0..<n]" using filled by simp
  ultimately show ?case by simp
next
  case (Cons j sched)
  show ?case
  proof (cases "j < n \<and> slots j = None")
    case True
    then have task: "task j = Inr (r j)" using Cons.prems(2) by simp
    have "gather_loop task n sched (slots(j \<mapsto> r j)) = Some (Inr (map r [0..<n]))"
    proof (rule Cons.IH)
      show "\<forall>i<n. (slots(j \<mapsto> r j)) i = None \<longrightarrow> i \<in> set sched"
        using Cons.prems(1) by auto
      show "\<forall>i<n. task i = Inr (r i)" by (rule Cons.prems(2))
      show "\<forall>i<n. (slots(j \<mapsto> r j)) i \<noteq> None \<longrightarrow> (slots(j \<mapsto> r j)) i = Some (r i)"
        using Cons.prems(3) by auto
    qed
    with True task show ?thesis by simp
  next
    case False
    have "gather_loop task n sched slots = Some (Inr (map r [0..<n]))"
    proof (rule Cons.IH)
      show "\<forall>i<n. slots i = None \<longrightarrow> i \<in> set sched"
        using Cons.prems(1) False by auto
      show "\<forall>i<n. task i = Inr (r i)" by (rule Cons.prems(2))
      show "\<forall>i<n. slots i \<noteq> None \<longrightarrow> slots i = Some (r i)" by (rule Cons.prems(3))
    qed
    with False show ?thesis by auto
  qed
qed

lemma gather_loop_raises:
  assumes "\<forall>i<n. slots i = None \<longrightarrow> i \<in> set sched"
    and "\<forall>i<n. \<forall>e'. task i = Inl e' \<longrightarrow> e' = e"
    and "\<exists>i<n. slots i = None \<and> task i = Inl e"
  shows "gather_loop task n sched slots = Some (Inl e)"
  using assms
proof (induction sched arbitrary: slots)
  case Nil
  then show ?case by auto
next
  case (Cons j sched)
  show ?case
  proof (cases "j < n \<and> slots j = None")
    case True
    show ?thesis
    proof (cases "task j")
      case (Inl e')
      with True Cons.prems(2) have "e' = e" by blast
      with True Inl show ?thesis by simp
    next
      case (Inr v)
      have "gather_loop task n sched (slots(j \<mapsto> v)) = Some (Inl e)"
      proof (rule Cons.IH)
        show "\<forall>i<n. (slots(j \<mapsto> v)) i = None \<longrightarrow> i \<in> set sched"
          using Cons.prems(1) by auto
        show "\<forall>i<n. \<forall>e'. task i = Inl e' \<longrightarrow> e' = e" by (rule Cons.prems(2))
        from Cons.prems(3) obtain i where i: "i < n" "slots i = None" "task i = Inl e" by blast
        with Inr have "i \<noteq> j" by auto
        with i show "\<exists>i<n. (slots(j \<mapsto> v)) i = None \<and> task i = Inl e" by auto
      qed
      with True Inr show ?thesis by simp
    qed
  next
    case False
    have "gather_loop task n sched slots = Some (Inl e)"
    proof (rule Cons.IH)
      show "\<forall>i<n. slots i = None \<longrightarrow> i \<in> set sched"
        using Cons.prems(1) False by auto
      show "\<forall>i<n. \<forall>e'. task i = Inl e' \<longrightarrow> e' = e" by (rule Cons.prems(2))
      show "\<exists>i<n. slots i = None \<and> task i = Inl e" by (rule Cons.prems(3))
    qed
    with False show ?thesis by auto
  qed
qed

lemma sequential_validation_returns:
  "\<forall>l \<in> set links. validate U md fs l = Inr (r l)
   \<Longrightarrow> sequential_validation U md fs links = Inr (map (\<lambda>l. (l, r l)) links)"
  by (induction links) simp_all

lemma sequential_validation_raises:
  "\<exists>l \<in> set links. validate U md fs l = Inl e
   \<Longrightarrow> sequential_validation U md fs links = Inl OSError"
proof (induction links)
  case Nil
  then show ?case by simp
next
  case (Cons l links)
  show ?case
  proof (cases "validate U md fs l")
    case (Inl e')
    then show ?thesis using validate_raises_OSError [OF Inl] by simp
  next
    case (Inr v)
    with Cons.prems have "\<exists>l \<in> set links. validate U md fs l = Inl e" by auto
    from Cons.IH [OF this] Inr show ?thesis by simp
  qed
qed

lemma sequential_validation_cases:
  "(\<forall>l \<in> set links. validate U md fs l = Inr (projr (validate U md fs l)))
   \<or> (\<exists>l \<in> set links. validate U md fs l = Inl OSError)"
proof (cases "\<exists>l \<in> set links. \<exists>e. validate U md fs l = Inl e")
  case True
  then show ?thesis using validate_raises_OSError by blast
next
  case False
  have "\<forall>l \<in> set links. validate U md fs l = Inr (projr (validate U md fs l))"
  proof
    fix l
    assume "l \<in> set links"
    with False show "validate U md fs l = Inr (projr (validate U md fs l))"
      by (cases "validate U md fs l") auto
  qed
  then show ?thesis ..
qed

text \<open>
  C7, as the code has it. Whatever the order in which the tasks finish, as long as each of
  them does, \<open>validate_all_links\<close> does what validating the links one after the other
  does. When every validation returns, that is the list as long as the input, with the
  pair of the i-th link and its own validation result at position i. When the validation
  of some link raises, no list is returned: \<open>validate_all_links\<close> raises the same
  exception.
\<close>

theorem validate_all_links_sequential:
  assumes "{..<length links} \<subseteq> set schedule"
  shows "validate_all_links U md fs schedule links = Some (sequential_validation U md fs links)
       \<and> (\<forall>rs. sequential_validation U md fs links = Inr rs \<longrightarrow>
            length rs = length links
            \<and> (\<forall>i<length links. fst (rs ! i) = links ! i
                  \<and> validate U md fs (links ! i) = Inr (snd (rs ! i))))
       \<and> (\<forall>e. sequential_validation U md fs links = Inl e \<longleftrightarrow>
            (\<exists>l \<in> set links. validate U md fs l = Inl e))"
proof -
  let ?task = "\<lambda>i. validate_one U md fs (links ! i)"
  let ?r = "\<lambda>l. projr (validate U md fs l)"
  have cover: "\<forall>i<length links. (\<lambda>i. None :: (TraceabilityLink \<times> LinkValidationState) option) i = None
      \<longrightarrow> i \<in> set schedule"
    using assms by auto
  from sequential_validation_cases [of links U md fs]
  show ?thesis
  proof
    assume ok: "\<forall>l \<in> set links. validate U md fs l = Inr (?r l)"
    have seq: "sequential_validation U md fs links = Inr (map (\<lambda>l. (l, ?r l)) links)"
      using ok by (rule sequential_validation_returns)
    have tasks: "\<forall>i<length links. ?task i = Inr ((\<lambda>i. (links ! i, ?r (links ! i))) i)"
    proof (intro allI impI)
      fix i
      assume "i < length links"
      then have "validate U md fs (links ! i) = Inr (?r (links ! i))" using ok by simp
      then show "?task i = Inr (links ! i, ?r (links ! i))"
        by (cases "validate U md fs (links ! i)")
           (simp_all add: validate_one_def validate_link_def)
    qed
    have "gather_loop ?task (length links) schedule (\<lambda>i. None)
          = Some (Inr (map (\<lambda>i. (links ! i, ?r (links ! i))) [0..<length links]))"
      using cover tasks by (rule gather_loop_returns) simp
    moreover have "map (\<lambda>i. (links ! i, ?r (links ! i))) [0..<length links]
          = map (\<lambda>l. (l, ?r l)) links"
      by (rule nth_equalityI) simp_all
    ultimately have run: "validate_all_links U md fs schedule links
          = Some (sequential_validation U md fs links)"
      by (simp only: validate_all_links_def validate_all_links_async_def gather_def seq)
    have noerr: "\<forall>e. sequential_validation U md fs links = Inl e \<longleftrightarrow>
            (\<exists>l \<in> set links. validate U md fs l = Inl e)"
    proof (intro allI iffI)
      fix e
      assume "sequential_validation U md fs links = Inl e"
      with seq show "\<exists>l \<in> set links. validate U md fs l = Inl e" by simp
    next
      fix e
      assume "\<exists>l \<in> set links. validate U md fs l = Inl e"
      then obtain l where "l \<in> set links" "validate U md fs l = Inl e" by blast
      with ok have False by (metis sum.distinct(1))
      then show "sequential_validation U md fs links = Inl e" ..
    qed
    have shape: "\<forall>rs. sequential_validation U md fs links = Inr rs \<longrightarrow>
            length rs = length links
            \<and> (\<forall>i<length links. fst (rs ! i) = links ! i
                  \<and> validate U md fs (links ! i) = Inr (snd (rs ! i)))"
      using seq ok by auto
    from run shape noerr show ?thesis by blast
  next
    assume bad: "\<exists>l \<in> set links. validate U md fs l = Inl OSError"
    then have seq: "sequential_validation U md fs links = Inl OSError"
      by (rule sequential_validation_raises)
    from bad obtain i where i: "i < length links" "validate U md fs (links ! i) = Inl OSError"
      by (auto simp: in_set_conv_nth)
    have same: "\<forall>i<length links. \<forall>e'. ?task i = Inl e' \<longrightarrow> e' = OSError"
    proof (intro allI impI)
      fix k e'
      assume "?task k = Inl e'"
      then have "validate U md fs (links ! k) = Inl e'"
        by (simp add: validate_one_def validate_link_def split: sum.splits)
      then show "e' = OSError" by (rule validate_raises_OSError)
    qed
    have "\<exists>i<length links. (\<lambda>i. None :: (TraceabilityLink \<times> LinkValidationState) option) i = None
        \<and> ?task i = Inl OSError"
      using i by (auto simp: validate_one_def validate_link_def)
    with cover same
    have "gather_loop ?task (length links) schedule (\<lambda>i. None) = Some (Inl OSError)"
      by (rule gather_loop_raises)
    then have run: "validate_all_links U md fs schedule links
          = Some (sequential_validation U md fs links)"
      by (simp only: validate_all_links_def validate_all_links_async_def gather_def seq)
    have shape: "\<forall>rs. sequential_validation U md fs links = Inr rs \<longrightarrow>
            length rs = length links
            \<and> (\<forall>i<length links. fst (rs ! i) = links ! i
                  \<and> validate U md fs (links ! i) = Inr (snd (rs ! i)))"
      using seq by simp
    have err: "\<forall>e. sequential_validation U md fs links = Inl e \<longleftrightarrow>
            (\<exists>l \<in> set links. validate U md fs l = Inl e)"
    proof (intro allI iffI)
      fix e
      assume "sequential_validation U md fs links = Inl e"
      with seq have "e = OSError" by simp
      with bad show "\<exists>l \<in> set links. validate U md fs l = Inl e" by simp
    next
      fix e
      assume "\<exists>l \<in> set links. validate U md fs l = Inl e"
      then have "e = OSError" using validate_raises_OSError by blast
      with seq show "sequential_validation U md fs links = Inl e" by simp
    qed
    from run shape err show ?thesis by blast
  qed
qed

text \<open>Two links whose tasks finish in the opposite order.\<close>

theorem validate_all_links_sequential_witness:
  "{..<length [demo_link [str ''memory'', str ''company.md''] None,
               demo_link [str ''missing.md''] None]} \<subseteq> set [1, 0::nat]
   \<and> validate_all_links ascii_ucd demo_md demo_fs [1, 0]
     [demo_link [str ''memory'', str ''company.md''] None,
      demo_link [str ''missing.md''] None]
   = Some (Inr [(demo_link [str ''memory'', str ''company.md''] None, VALID),
                (demo_link [str ''missing.md''] None, BROKEN_FILE)])"
proof -
  have sched: "{..<length [demo_link [str ''memory'', str ''company.md''] None,
      demo_link [str ''missing.md''] None]} \<subseteq> set [1, 0::nat]"
    by auto
  have v1: "validate ascii_ucd demo_md demo_fs
      (demo_link [str ''memory'', str ''company.md''] None) = Inr VALID"
    by (simp add: validate_def exists_def demo_fs_def demo_link_def truthy_def str_def)
  have v2: "validate ascii_ucd demo_md demo_fs (demo_link [str ''missing.md''] None)
      = Inr BROKEN_FILE"
    by (simp add: validate_def exists_def demo_fs_def demo_link_def truthy_def str_def)
  from validate_all_links_sequential [OF sched, of ascii_ucd demo_md demo_fs] v1 v2
  have "validate_all_links ascii_ucd demo_md demo_fs [1, 0]
     [demo_link [str ''memory'', str ''company.md''] None,
      demo_link [str ''missing.md''] None]
   = Some (Inr [(demo_link [str ''memory'', str ''company.md''] None, VALID),
                (demo_link [str ''missing.md''] None, BROKEN_FILE)])"
    by simp
  with sched show ?thesis by blast
qed

text \<open>
  C7 as stated fails: for a list with a link to a name that is too long, the test for the
  target file raises \<open>OSError\<close>, and \<open>validate_all_links\<close> raises it and returns no list.
\<close>

theorem validate_all_links_counterexample:
  "validate_all_links ascii_ucd demo_md nostat_fs [0, 1]
     [demo_link [str ''features'', str ''001.md''] None, demo_link long_name None]
   = Some (Inl OSError)"
  by (simp add: validate_all_links_def validate_all_links_async_def gather_def validate_one_def
      validate_link_def validate_def exists_def nostat_fs_def demo_link_def truthy_def
      long_name_def str_def)

subsection \<open>Installation rollback\<close>

lemma map_of_remove_path: "map_of (remove_path fs p) q = (if q = p then None else map_of fs q)"
  by (induction fs) (auto simp: remove_path_def)

lemma set_entries: "set (entries fs d) = {q. q \<noteq> [] \<and> butlast q = d \<and> map_of fs q \<noteq> None}"
  by (auto simp: entries_def map_of_eq_None_iff)

lemma entries_Nil: "entries fs d = [] \<Longrightarrow> q \<noteq> [] \<Longrightarrow> butlast q = d \<Longrightarrow> map_of fs q = None"
  using set_entries [of fs d] by auto

lemma deleted_files_append: "deleted_files (a @ b) = deleted_files a @ deleted_files b"
  by (induction a rule: deleted_files.induct) auto

lemma deleted_dirs_append: "deleted_dirs (a @ b) = deleted_dirs a @ deleted_dirs b"
  by (induction a rule: deleted_dirs.induct) auto

lemma rollback_files_step:
  "rollback_files permitted (p # ps) (fs, out) =
     (if map_of fs p = None then rollback_files permitted ps (fs, out)
      else if map_of fs p = Some NoStat then ((fs, out), Some OSError)
      else if map_of fs p = Some Directory \<or> \<not> permitted p
      then rollback_files permitted ps (fs, out @ [CouldNotDelete p])
      else rollback_files permitted ps (remove_path fs p, out @ [DeletedFile p]))"
  by (auto simp: exists_def unlink_def split: option.splits node.splits)

lemma rollback_dirs_step:
  "rollback_dirs permitted (d # ds) (fs, out) =
     (if map_of fs d = None then rollback_dirs permitted ds (fs, out)
      else if map_of fs d = Some NoStat then ((fs, out), Some OSError)
      else if map_of fs d \<noteq> Some Directory
      then rollback_dirs permitted ds (fs, out @ [CouldNotDelete d])
      else if entries fs d \<noteq> [] then rollback_dirs permitted ds (fs, out @ [SkippedDir d])
      else if \<not> permitted d then rollback_dirs permitted ds (fs, out @ [CouldNotDelete d])
      else rollback_dirs permitted ds (remove_path fs d, out @ [DeletedDir d]))"
  by (auto simp: exists_def iterdir_def rmdir_def split: option.splits node.splits)

lemma rollback_files_monotone:
  "rollback_files permitted ps (fs, out) = ((fs', out'), err)
   \<Longrightarrow> map_of fs' q = None \<or> map_of fs' q = map_of fs q"
proof (induction ps arbitrary: fs out)
  case Nil
  then show ?case by simp
next
  case (Cons p ps)
  from Cons.prems Cons.IH show ?case
    unfolding rollback_files_step
    by (fastforce simp: map_of_remove_path split: if_splits)
qed

lemma rollback_files_untracked:
  "rollback_files permitted ps (fs, out) = ((fs', out'), err) \<Longrightarrow> q \<notin> set ps
   \<Longrightarrow> map_of fs' q = map_of fs q"
proof (induction ps arbitrary: fs out)
  case Nil
  then show ?case by simp
next
  case (Cons p ps)
  from Cons.prems Cons.IH show ?case
    unfolding rollback_files_step
    by (fastforce simp: map_of_remove_path split: if_splits)
qed

lemma rollback_files_keeps_dirs:
  "rollback_files permitted ps (fs, out) = ((fs', out'), err) \<Longrightarrow> map_of fs d = Some Directory
   \<Longrightarrow> map_of fs' d = Some Directory"
proof (induction ps arbitrary: fs out)
  case Nil
  then show ?case by simp
next
  case (Cons p ps)
  from Cons.prems Cons.IH show ?case
    unfolding rollback_files_step
    by (fastforce simp: map_of_remove_path split: if_splits)
qed

lemma rollback_files_deletes:
  "rollback_files permitted ps (fs, out) = ((fs', out'), None) \<Longrightarrow> p \<in> set ps
   \<Longrightarrow> map_of fs p \<noteq> Some Directory \<Longrightarrow> permitted p \<Longrightarrow> map_of fs' p = None"
proof (induction ps arbitrary: fs out)
  case Nil
  then show ?case by simp
next
  case (Cons x ps)
  show ?case
  proof (cases "x = p")
    case True
    with Cons.prems have "map_of fs p = None
       \<and> rollback_files permitted ps (fs, out) = ((fs', out'), None)
      \<or> rollback_files permitted ps (remove_path fs p, out @ [DeletedFile p]) = ((fs', out'), None)"
      unfolding rollback_files_step by (auto split: if_splits)
    then show ?thesis
      by (metis map_of_remove_path rollback_files_monotone)
  next
    case False
    with Cons.prems have "p \<in> set ps" by simp
    from Cons.prems(1) have "\<exists>fs1 out1. rollback_files permitted ps (fs1, out1) = ((fs', out'), None)
        \<and> map_of fs1 p = map_of fs p"
      unfolding rollback_files_step using False
      by (auto simp: map_of_remove_path split: if_splits)
    then show ?thesis
      using Cons.IH \<open>p \<in> set ps\<close> Cons.prems(3,4) by metis
  qed
qed

lemma rollback_files_returns:
  "\<forall>p \<in> set ps. map_of fs p \<noteq> Some NoStat
   \<Longrightarrow> \<exists>st. rollback_files permitted ps (fs, out) = (st, None)"
proof (induction ps arbitrary: fs out)
  case Nil
  then show ?case by simp
next
  case (Cons p ps)
  have "\<forall>q \<in> set ps. map_of (remove_path fs p) q \<noteq> Some NoStat"
    using Cons.prems by (simp add: map_of_remove_path)
  with Cons.prems Cons.IH show ?case
    unfolding rollback_files_step by simp
qed

lemma rollback_dirs_returns:
  "\<forall>p \<in> set ds. map_of fs p \<noteq> Some NoStat
   \<Longrightarrow> \<exists>st. rollback_dirs permitted ds (fs, out) = (st, None)"
proof (induction ds arbitrary: fs out)
  case Nil
  then show ?case by simp
next
  case (Cons d ds)
  have "\<forall>q \<in> set ds. map_of (remove_path fs d) q \<noteq> Some NoStat"
    using Cons.prems by (simp add: map_of_remove_path)
  with Cons.prems Cons.IH show ?case
    unfolding rollback_dirs_step by simp
qed

lemma rollback_files_log:
  "rollback_files permitted ps (fs, out) = ((fs', out'), err)
   \<Longrightarrow> \<exists>ev. out' = out @ ev \<and> subseq (deleted_files ev) ps \<and> deleted_dirs ev = []"
proof (induction ps arbitrary: fs out)
  case Nil
  then show ?case by simp
next
  case (Cons p ps)
  from Cons.prems consider
      (stop) "fs' = fs" "out' = out"
    | (skip) "rollback_files permitted ps (fs, out) = ((fs', out'), err)"
    | (warn) "rollback_files permitted ps (fs, out @ [CouldNotDelete p]) = ((fs', out'), err)"
    | (del) "rollback_files permitted ps (remove_path fs p, out @ [DeletedFile p])
               = ((fs', out'), err)"
    unfolding rollback_files_step by (auto split: if_splits)
  then show ?case
  proof cases
    case stop
    have "out' = out @ []" "subseq (deleted_files []) (p # ps)" "deleted_dirs [] = []"
      using stop by simp_all
    then show ?thesis by blast
  next
    case skip
    from Cons.IH [OF skip] obtain ev where "out' = out @ ev" "subseq (deleted_files ev) ps"
      "deleted_dirs ev = []" by blast
    then show ?thesis by (auto intro: list_emb_Cons)
  next
    case warn
    from Cons.IH [OF warn] obtain ev where ev: "out' = (out @ [CouldNotDelete p]) @ ev"
      "subseq (deleted_files ev) ps" "deleted_dirs ev = []" by blast
    then have "out' = out @ (CouldNotDelete p # ev)" by simp
    moreover have "subseq (deleted_files (CouldNotDelete p # ev)) (p # ps)"
      using ev(2) by (simp add: list_emb_Cons)
    moreover have "deleted_dirs (CouldNotDelete p # ev) = []" using ev(3) by simp
    ultimately show ?thesis by blast
  next
    case del
    from Cons.IH [OF del] obtain ev where ev: "out' = (out @ [DeletedFile p]) @ ev"
      "subseq (deleted_files ev) ps" "deleted_dirs ev = []" by blast
    then have "out' = out @ (DeletedFile p # ev)" by simp
    moreover have "subseq (deleted_files (DeletedFile p # ev)) (p # ps)"
      using ev(2) by simp
    moreover have "deleted_dirs (DeletedFile p # ev) = []" using ev(3) by simp
    ultimately show ?thesis by blast
  qed
qed

lemma rollback_dirs_monotone:
  "rollback_dirs permitted ds (fs, out) = ((fs', out'), err)
   \<Longrightarrow> map_of fs' q = None \<or> map_of fs' q = map_of fs q"
proof (induction ds arbitrary: fs out)
  case Nil
  then show ?case by simp
next
  case (Cons d ds)
  from Cons.prems Cons.IH show ?case
    unfolding rollback_dirs_step
    by (fastforce simp: map_of_remove_path split: if_splits)
qed

lemma rollback_dirs_untracked:
  "rollback_dirs permitted ds (fs, out) = ((fs', out'), err) \<Longrightarrow> q \<notin> set ds
   \<Longrightarrow> map_of fs' q = map_of fs q"
proof (induction ds arbitrary: fs out)
  case Nil
  then show ?case by simp
next
  case (Cons d ds)
  from Cons.prems Cons.IH show ?case
    unfolding rollback_dirs_step
    by (fastforce simp: map_of_remove_path split: if_splits)
qed

lemma rollback_dirs_empty_only:
  "rollback_dirs permitted ds (fs, out) = ((fs', out'), err) \<Longrightarrow> map_of fs d = Some Directory
   \<Longrightarrow> map_of fs' d = None \<Longrightarrow> q \<noteq> [] \<Longrightarrow> butlast q = d \<Longrightarrow> map_of fs' q = None"
proof (induction ds arbitrary: fs out)
  case Nil
  then show ?case by simp
next
  case (Cons x ds)
  from Cons.prems(1) consider
      (stop) "fs' = fs"
    | (keep) out1 where "rollback_dirs permitted ds (fs, out1) = ((fs', out'), err)"
    | (del) "map_of fs x = Some Directory" "entries fs x = []"
        "rollback_dirs permitted ds (remove_path fs x, out @ [DeletedDir x]) = ((fs', out'), err)"
    unfolding rollback_dirs_step by (auto split: if_splits)
  then show ?case
  proof cases
    case stop
    with Cons.prems(2,3) show ?thesis by simp
  next
    case keep
    then show ?thesis using Cons.IH Cons.prems(2-5) by blast
  next
    case del
    show ?thesis
    proof (cases "x = d")
      case True
      with del(2) Cons.prems(4,5) have "map_of fs q = None" by (simp add: entries_Nil)
      then have "map_of (remove_path fs x) q = None" by (simp add: map_of_remove_path)
      with rollback_dirs_monotone [OF del(3), of q] show ?thesis by auto
    next
      case False
      with Cons.prems(2) have "map_of (remove_path fs x) d = Some Directory"
        by (simp add: map_of_remove_path)
      with Cons.IH [OF del(3)] Cons.prems(3-5) show ?thesis by blast
    qed
  qed
qed

lemma rollback_dirs_log:
  "rollback_dirs permitted ds (fs, out) = ((fs', out'), err)
   \<Longrightarrow> \<exists>ev. out' = out @ ev \<and> subseq (deleted_dirs ev) ds \<and> deleted_files ev = []"
proof (induction ds arbitrary: fs out)
  case Nil
  then show ?case by simp
next
  case (Cons d ds)
  from Cons.prems consider
      (stop) "fs' = fs" "out' = out"
    | (skip) "rollback_dirs permitted ds (fs, out) = ((fs', out'), err)"
    | (warn) l where "l = CouldNotDelete d \<or> l = SkippedDir d"
        "rollback_dirs permitted ds (fs, out @ [l]) = ((fs', out'), err)"
    | (del) "rollback_dirs permitted ds (remove_path fs d, out @ [DeletedDir d])
               = ((fs', out'), err)"
    unfolding rollback_dirs_step by (auto split: if_splits)
  then show ?case
  proof cases
    case stop
    have "out' = out @ []" "subseq (deleted_dirs []) (d # ds)" "deleted_files [] = []"
      using stop by simp_all
    then show ?thesis by blast
  next
    case skip
    from Cons.IH [OF skip] obtain ev where "out' = out @ ev" "subseq (deleted_dirs ev) ds"
      "deleted_files ev = []" by blast
    then show ?thesis by (auto intro: list_emb_Cons)
  next
    case warn
    from Cons.IH [OF warn(2)] obtain ev where ev: "out' = (out @ [l]) @ ev"
      "subseq (deleted_dirs ev) ds" "deleted_files ev = []" by blast
    then have "out' = out @ (l # ev)" by simp
    moreover have "subseq (deleted_dirs (l # ev)) (d # ds)"
      using ev(2) warn(1) by (auto simp: list_emb_Cons)
    moreover have "deleted_files (l # ev) = []" using ev(3) warn(1) by auto
    ultimately show ?thesis by blast
  next
    case del
    from Cons.IH [OF del] obtain ev where ev: "out' = (out @ [DeletedDir d]) @ ev"
      "subseq (deleted_dirs ev) ds" "deleted_files ev = []" by blast
    then have "out' = out @ (DeletedDir d # ev)" by simp
    moreover have "subseq (deleted_dirs (DeletedDir d # ev)) (d # ds)"
      using ev(2) by simp
    moreover have "deleted_files (DeletedDir d # ev) = []" using ev(3) by simp
    ultimately show ?thesis by blast
  qed
qed

lemma deletions_files_only:
  "deleted_dirs ev = [] \<Longrightarrow> filter is_deletion ev = map DeletedFile (deleted_files ev)"
  by (induction ev rule: deleted_files.induct) auto

lemma deletions_dirs_only:
  "deleted_files ev = [] \<Longrightarrow> filter is_deletion ev = map DeletedDir (deleted_dirs ev)"
  by (induction ev rule: deleted_dirs.induct) auto

text \<open>The directories are taken one after the other.\<close>

lemma rollback_dirs_append:
  "rollback_dirs permitted (xs @ ys) (fs, out) =
     (case rollback_dirs permitted xs (fs, out) of
        (st, Some e) \<Rightarrow> (st, Some e)
      | (st, None) \<Rightarrow> rollback_dirs permitted ys st)"
proof (induction xs arbitrary: fs out)
  case Nil
  then show ?case by simp
next
  case (Cons x xs)
  show ?case
    unfolding append_Cons rollback_dirs_step
    by (simp add: Cons.IH)
qed

text \<open>
  When every entry of the directories is a directory tracked later, the directories all
  go: each of them is empty when its turn comes.
\<close>

lemma rollback_dirs_removes:
  assumes "rollback_dirs permitted (rev dirs) (fs, out) = ((fs', out'), None)"
    and "\<forall>d \<in> set dirs. (map_of fs d = None \<or> map_of fs d = Some Directory) \<and> permitted d"
    and "nested fs dirs"
  shows "\<forall>d \<in> set dirs. map_of fs' d = None"
  using assms
proof (induction dirs arbitrary: fs' out')
  case Nil
  then show ?case by simp
next
  case (Cons d later)
  from Cons.prems(1) obtain fs2 out2 where
    first: "rollback_dirs permitted (rev later) (fs, out) = ((fs2, out2), None)"
    and last: "rollback_dirs permitted [d] (fs2, out2) = ((fs', out'), None)"
    by (auto simp: rollback_dirs_append split: prod.splits option.splits)
  have gone2: "\<forall>x \<in> set later. map_of fs2 x = None"
    using first Cons.prems(2,3) by (intro Cons.IH) simp_all
  have "set (entries fs2 d) \<subseteq> set (entries fs d)"
  proof
    fix q
    assume "q \<in> set (entries fs2 d)"
    then have q: "q \<noteq> []" "butlast q = d" "map_of fs2 q \<noteq> None"
      by (simp_all add: set_entries)
    with rollback_dirs_monotone [OF first, of q] have "map_of fs q \<noteq> None" by auto
    with q show "q \<in> set (entries fs d)" by (simp add: set_entries)
  qed
  with Cons.prems(3) have sub: "set (entries fs2 d) \<subseteq> set later" by auto
  have "set (entries fs2 d) = {}"
  proof (rule equals0I)
    fix q
    assume q: "q \<in> set (entries fs2 d)"
    then have "map_of fs2 q \<noteq> None" by (simp add: set_entries)
    moreover from q sub gone2 have "map_of fs2 q = None" by blast
    ultimately show False by simp
  qed
  then have empty: "entries fs2 d = []" by simp
  have kind: "map_of fs2 d = None \<or> map_of fs2 d = Some Directory"
    using rollback_dirs_monotone [OF first, of d] Cons.prems(2) by auto
  have perm: "permitted d" using Cons.prems(2) by simp
  from last kind empty perm have d: "map_of fs' d = None"
    unfolding rollback_dirs_step by (auto simp: map_of_remove_path split: if_splits)
  have "\<forall>x \<in> set later. map_of fs' x = None"
    using rollback_dirs_monotone [OF last] gone2 by metis
  with d show ?case by simp
qed

lemma wholly_tracked_nested:
  assumes "rollback_files permitted (rev files) (fs, out) = ((fs1, out1), None)"
    and "wholly_tracked permitted fs files dirs"
  shows "nested fs1 dirs
       \<and> (\<forall>d \<in> set dirs. (map_of fs1 d = None \<or> map_of fs1 d = Some Directory) \<and> permitted d)"
  using assms(2)
proof (induction dirs)
  case Nil
  then show ?case by simp
next
  case (Cons d later)
  then have ih: "nested fs1 later"
    "\<forall>x \<in> set later. (map_of fs1 x = None \<or> map_of fs1 x = Some Directory) \<and> permitted x"
    by simp_all
  have kind: "(map_of fs1 d = None \<or> map_of fs1 d = Some Directory) \<and> permitted d"
    using Cons.prems rollback_files_monotone [OF assms(1), of d] by auto
  have "set (entries fs1 d) \<subseteq> set later"
  proof
    fix q
    assume q: "q \<in> set (entries fs1 d)"
    then have here: "map_of fs1 q \<noteq> None" by (simp add: set_entries)
    with rollback_files_monotone [OF assms(1), of q] have same: "map_of fs1 q = map_of fs q"
      by auto
    with q here have "q \<in> set (entries fs d)" by (simp add: set_entries)
    with Cons.prems have "q \<in> set later \<or> (q \<in> set files \<and> removable_file permitted fs q)"
      by (simp add: list_all_iff)
    then show "q \<in> set later"
    proof
      assume "q \<in> set later"
      then show ?thesis .
    next
      assume f: "q \<in> set files \<and> removable_file permitted fs q"
      then have "map_of fs q \<noteq> Some Directory" "permitted q"
        by (auto simp: removable_file_def split: option.splits node.splits)
      with rollback_files_deletes [OF assms(1), of q] f have "map_of fs1 q = None" by simp
      with here show ?thesis by simp
    qed
  qed
  with ih kind show ?case by simp
qed

lemma rollback_split:
  assumes "rollback permitted tracker fs = ((fs', out), err)"
  shows "\<exists>fs1 out1 err1 out2.
      rollback_files permitted (rev (created_files tracker)) (fs, [RollingBack])
        = ((fs1, out1), err1)
    \<and> (err1 \<noteq> None \<longrightarrow> fs' = fs1 \<and> out = out1 \<and> err = err1)
    \<and> (err1 = None \<longrightarrow>
         rollback_dirs permitted (rev (created_dirs tracker)) (fs1, out1) = ((fs', out2), err))
    \<and> (err1 = None \<longrightarrow> out = out2 \<or> (err = None \<and> out = out2 @ [RollbackComplete]))"
  using assms unfolding rollback_def
  by (auto split: prod.splits option.splits)

lemma install_run:
  "rollback (\<lambda>p. True) install_tracker install_fs =
     (([([str ''user''], Directory),
        ([str ''user'', str ''notes.txt''], File (str ''mine'')),
        ([str ''cache''], Directory),
        ([str ''cache'', str ''data''], File (str ''0''))],
       [RollingBack, DeletedFile [str ''deck'', str ''README.md''], SkippedDir [str ''cache''],
        DeletedDir [str ''deck''], RollbackComplete]), None)"
  by (simp add: rollback_def install_tracker_def install_fs_def exists_def unlink_def iterdir_def
      rmdir_def entries_def remove_path_def str_def)

lemma nested_run:
  "rollback (\<lambda>p. True) nested_tracker nested_fs =
     (([([str ''user''], Directory)],
       [RollingBack, DeletedFile [str ''deck'', str ''img'', str ''logo.svg''],
        DeletedFile [str ''deck'', str ''README.md''], DeletedDir [str ''deck'', str ''img''],
        DeletedDir [str ''deck''], RollbackComplete]), None)"
  by (simp add: rollback_def nested_tracker_def nested_fs_def exists_def unlink_def iterdir_def
      rmdir_def entries_def remove_path_def str_def)

lemma nested_wholly_tracked:
  "wholly_tracked (\<lambda>p. True) nested_fs (created_files nested_tracker)
     (created_dirs nested_tracker)"
  by (simp add: nested_tracker_def nested_fs_def entries_def removable_file_def str_def)

text \<open>
  C8. A path is there when the table of the file system has it. A rollback reports its
  deletions in this order: first tracked files, in the reverse of the order in which they
  were tracked, then tracked directories, in the reverse of theirs. It runs to its end
  unless the test for a tracked path raises. When it has run to its end, a tracked path
  that is a file the system lets it remove is gone, and so is every tracked directory,
  provided that the system lets it remove them and that all they hold is tracked: files
  that can be removed, and directories tracked after the one that holds them. No directory
  is removed while it has an entry: when a directory is gone after the rollback, so is
  everything that was in it. A path that is not in the tracker is left as it was.
  \<open>track_file\<close> and \<open>track_dir\<close> leave the tracker as it is for a path that exists, put
  a path that does not exist at the end of their list, and raise when the test raises.
\<close>

theorem rollback_reverse_order_and_safe:
  assumes run: "rollback permitted tracker fs = ((fs', out), err)"
  shows "(\<exists>fl dl. filter is_deletion out = map DeletedFile fl @ map DeletedDir dl
            \<and> subseq fl (rev (created_files tracker))
            \<and> subseq dl (rev (created_dirs tracker)))
       \<and> ((\<forall>p \<in> set (created_files tracker) \<union> set (created_dirs tracker).
              map_of fs p \<noteq> Some NoStat) \<longrightarrow> err = None)
       \<and> (err = None \<longrightarrow>
            (\<forall>p \<in> set (created_files tracker).
               map_of fs p \<noteq> Some Directory \<and> permitted p \<longrightarrow> map_of fs' p = None))
       \<and> (err = None
            \<and> wholly_tracked permitted fs (created_files tracker) (created_dirs tracker) \<longrightarrow>
            (\<forall>d \<in> set (created_dirs tracker). map_of fs' d = None))
       \<and> (\<forall>d q. map_of fs d = Some Directory \<and> map_of fs' d = None \<and> q \<noteq> [] \<and> butlast q = d
            \<longrightarrow> map_of fs' q = None)
       \<and> (\<forall>q. q \<notin> set (created_files tracker) \<union> set (created_dirs tracker)
            \<longrightarrow> map_of fs' q = map_of fs q)
       \<and> (\<forall>fs0 p.
            (exists fs0 p = Inr True \<longrightarrow>
               track_file fs0 tracker p = Inr tracker \<and> track_dir fs0 tracker p = Inr tracker)
            \<and> (exists fs0 p = Inr False \<longrightarrow>
               track_file fs0 tracker p
                 = Inr (tracker\<lparr>created_files := created_files tracker @ [p]\<rparr>)
               \<and> track_dir fs0 tracker p
                 = Inr (tracker\<lparr>created_dirs := created_dirs tracker @ [p]\<rparr>))
            \<and> (\<forall>e. exists fs0 p = Inl e \<longrightarrow>
               track_file fs0 tracker p = Inl e \<and> track_dir fs0 tracker p = Inl e))"
proof -
  let ?files = "created_files tracker"
  let ?dirs = "created_dirs tracker"
  from rollback_split [OF run] obtain fs1 out1 err1 out2 where
    files: "rollback_files permitted (rev ?files) (fs, [RollingBack]) = ((fs1, out1), err1)"
    and stopped': "err1 \<noteq> None \<longrightarrow> fs' = fs1 \<and> out = out1 \<and> err = err1"
    and dirs': "err1 = None \<longrightarrow>
       rollback_dirs permitted (rev ?dirs) (fs1, out1) = ((fs', out2), err)"
    and out': "err1 = None \<longrightarrow> out = out2 \<or> (err = None \<and> out = out2 @ [RollbackComplete])"
    by blast
  note stopped = stopped' [THEN mp] and dirs = dirs' [THEN mp] and out = out' [THEN mp]
  from rollback_files_log [OF files] obtain ev1 where ev1: "out1 = [RollingBack] @ ev1"
    "subseq (deleted_files ev1) (rev ?files)" "deleted_dirs ev1 = []"
    by blast
  have mono: "\<And>q. map_of fs' q = None \<or> map_of fs' q = map_of fs1 q"
  proof (cases "err1 = None")
    case True
    fix q
    from rollback_dirs_monotone [OF dirs [OF True], of q]
    show "map_of fs' q = None \<or> map_of fs' q = map_of fs1 q" .
  next
    case False
    fix q
    from stopped [OF False] show "map_of fs' q = None \<or> map_of fs' q = map_of fs1 q" by simp
  qed
  have order: "\<exists>fl dl. filter is_deletion out = map DeletedFile fl @ map DeletedDir dl
            \<and> subseq fl (rev ?files) \<and> subseq dl (rev ?dirs)"
  proof (cases "err1 = None")
    case True
    from rollback_dirs_log [OF dirs [OF True]] obtain ev2 where ev2: "out2 = out1 @ ev2"
      "subseq (deleted_dirs ev2) (rev ?dirs)" "deleted_files ev2 = []"
      by blast
    have "filter is_deletion out
          = map DeletedFile (deleted_files ev1) @ map DeletedDir (deleted_dirs ev2)"
      using out [OF True] ev1(1) ev2(1) deletions_files_only [OF ev1(3)]
        deletions_dirs_only [OF ev2(3)]
      by auto
    with ev1(2) ev2(2) show ?thesis by blast
  next
    case False
    have "filter is_deletion out = map DeletedFile (deleted_files ev1) @ map DeletedDir []"
      using stopped [OF False] ev1(1) deletions_files_only [OF ev1(3)] by simp
    moreover have "subseq [] (rev ?dirs)" by simp
    ultimately show ?thesis using ev1(2) by blast
  qed
  have returns: "(\<forall>p \<in> set ?files \<union> set ?dirs. map_of fs p \<noteq> Some NoStat) \<longrightarrow> err = None"
  proof
    assume ok: "\<forall>p \<in> set ?files \<union> set ?dirs. map_of fs p \<noteq> Some NoStat"
    then have "\<forall>p \<in> set (rev ?files). map_of fs p \<noteq> Some NoStat" by simp
    from rollback_files_returns [OF this, of permitted "[RollingBack]"] files
    have e1: "err1 = None" by auto
    have "\<forall>p \<in> set (rev ?dirs). map_of fs1 p \<noteq> Some NoStat"
    proof
      fix p
      assume "p \<in> set (rev ?dirs)"
      with ok have "map_of fs p \<noteq> Some NoStat" by simp
      with rollback_files_monotone [OF files, of p] show "map_of fs1 p \<noteq> Some NoStat" by auto
    qed
    from rollback_dirs_returns [OF this, of permitted out1] dirs [OF e1]
    show "err = None" by auto
  qed
  have gone: "err = None \<longrightarrow>
            (\<forall>p \<in> set ?files. map_of fs p \<noteq> Some Directory \<and> permitted p \<longrightarrow> map_of fs' p = None)"
  proof (intro impI ballI)
    fix p
    assume err: "err = None" and p: "p \<in> set ?files"
      and ok: "map_of fs p \<noteq> Some Directory \<and> permitted p"
    have e1: "err1 = None" using stopped err by (cases err1) auto
    from p have "p \<in> set (rev ?files)" by simp
    with rollback_files_deletes [OF files [unfolded e1]] ok have "map_of fs1 p = None" by blast
    with mono [of p] show "map_of fs' p = None" by auto
  qed
  have dirs_gone: "err = None \<and> wholly_tracked permitted fs ?files ?dirs \<longrightarrow>
            (\<forall>d \<in> set ?dirs. map_of fs' d = None)"
  proof
    assume h: "err = None \<and> wholly_tracked permitted fs ?files ?dirs"
    have e1: "err1 = None" using stopped h by (cases err1) auto
    from h have w: "wholly_tracked permitted fs ?files ?dirs" ..
    from wholly_tracked_nested [OF files [unfolded e1] w]
    have n: "nested fs1 ?dirs"
      and k: "\<forall>d \<in> set ?dirs. (map_of fs1 d = None \<or> map_of fs1 d = Some Directory) \<and> permitted d"
      by blast+
    from dirs [OF e1] h
    have "rollback_dirs permitted (rev ?dirs) (fs1, out1) = ((fs', out2), None)" by simp
    from rollback_dirs_removes [OF this k n]
    show "\<forall>d \<in> set ?dirs. map_of fs' d = None" .
  qed
  have nonempty: "\<forall>d q. map_of fs d = Some Directory \<and> map_of fs' d = None \<and> q \<noteq> []
            \<and> butlast q = d \<longrightarrow> map_of fs' q = None"
  proof (intro allI impI)
    fix d q
    assume h: "map_of fs d = Some Directory \<and> map_of fs' d = None \<and> q \<noteq> [] \<and> butlast q = d"
    then have d1: "map_of fs1 d = Some Directory"
      using rollback_files_keeps_dirs [OF files] by blast
    show "map_of fs' q = None"
    proof (cases "err1 = None")
      case True
      from rollback_dirs_empty_only [OF dirs [OF True] d1, of q] h show ?thesis by auto
    next
      case False
      with stopped d1 h show ?thesis by simp
    qed
  qed
  have untouched: "\<forall>q. q \<notin> set ?files \<union> set ?dirs \<longrightarrow> map_of fs' q = map_of fs q"
  proof (intro allI impI)
    fix q
    assume "q \<notin> set ?files \<union> set ?dirs"
    then have q: "q \<notin> set (rev ?files)" "q \<notin> set (rev ?dirs)" by simp_all
    from rollback_files_untracked [OF files q(1)] have one: "map_of fs1 q = map_of fs q" .
    show "map_of fs' q = map_of fs q"
    proof (cases "err1 = None")
      case True
      from rollback_dirs_untracked [OF dirs [OF True] q(2)] one show ?thesis by simp
    next
      case False
      with stopped one show ?thesis by simp
    qed
  qed
  have tracking: "\<forall>fs0 p.
            (exists fs0 p = Inr True \<longrightarrow>
               track_file fs0 tracker p = Inr tracker \<and> track_dir fs0 tracker p = Inr tracker)
            \<and> (exists fs0 p = Inr False \<longrightarrow>
               track_file fs0 tracker p
                 = Inr (tracker\<lparr>created_files := created_files tracker @ [p]\<rparr>)
               \<and> track_dir fs0 tracker p
                 = Inr (tracker\<lparr>created_dirs := created_dirs tracker @ [p]\<rparr>))
            \<and> (\<forall>e. exists fs0 p = Inl e \<longrightarrow>
               track_file fs0 tracker p = Inl e \<and> track_dir fs0 tracker p = Inl e)"
    by (simp add: track_file_def track_dir_def)
  from order returns gone dirs_gone nonempty untouched tracking show ?thesis by blast
qed

text \<open>
  The failed installation of the examples: the tracked file and its directory go, the
  directory with the untracked file stays, and the directory that was there before is
  not tracked. In the second example all that the tracked directories hold is tracked,
  and they go with it.
\<close>

theorem rollback_witness:
  "rollback (\<lambda>p. True) install_tracker install_fs =
     (([([str ''user''], Directory),
        ([str ''user'', str ''notes.txt''], File (str ''mine'')),
        ([str ''cache''], Directory),
        ([str ''cache'', str ''data''], File (str ''0''))],
       [RollingBack, DeletedFile [str ''deck'', str ''README.md''], SkippedDir [str ''cache''],
        DeletedDir [str ''deck''], RollbackComplete]), None)
   \<and> exists install_fs [str ''user''] = Inr True
   \<and> track_dir install_fs install_tracker [str ''user''] = Inr install_tracker
   \<and> exists install_fs [str ''new''] = Inr False
   \<and> created_dirs (projr (track_dir install_fs install_tracker [str ''new'']))
       = [[str ''deck''], [str ''cache''], [str ''new'']]
   \<and> wholly_tracked (\<lambda>p. True) nested_fs (created_files nested_tracker)
       (created_dirs nested_tracker)
   \<and> rollback (\<lambda>p. True) nested_tracker nested_fs =
     (([([str ''user''], Directory)],
       [RollingBack, DeletedFile [str ''deck'', str ''img'', str ''logo.svg''],
        DeletedFile [str ''deck'', str ''README.md''], DeletedDir [str ''deck'', str ''img''],
        DeletedDir [str ''deck''], RollbackComplete]), None)"
proof -
  have ex: "exists install_fs [str ''user''] = Inr True"
    by (simp add: exists_def install_fs_def str_def)
  have nex: "exists install_fs [str ''new''] = Inr False"
    by (simp add: exists_def install_fs_def str_def)
  from rollback_reverse_order_and_safe [OF install_run] ex nex
  have "track_dir install_fs install_tracker [str ''user''] = Inr install_tracker"
    and "track_dir install_fs install_tracker [str ''new'']
         = Inr (install_tracker\<lparr>created_dirs := created_dirs install_tracker @ [[str ''new'']]\<rparr>)"
    by blast+
  then have t: "track_dir install_fs install_tracker [str ''user''] = Inr install_tracker"
    "created_dirs (projr (track_dir install_fs install_tracker [str ''new'']))
       = [[str ''deck''], [str ''cache''], [str ''new'']]"
    by (simp_all add: install_tracker_def)
  from rollback_reverse_order_and_safe [OF nested_run] nested_wholly_tracked
  have "\<forall>d \<in> set (created_dirs nested_tracker). map_of [([str ''user''], Directory)] d = None"
    by blast
  with install_run nested_run nested_wholly_tracked ex nex t show ?thesis by blast
qed

subsection \<open>Slugs and kebab-case names\<close>

lemma sub_runs_id: "\<forall>c \<in> set t. \<not> P c \<Longrightarrow> sub_runs P r b t = t"
  by (induction t arbitrary: b) auto

lemma set_sub_runs: "set (sub_runs P r b x) \<subseteq> set r \<union> {c \<in> set x. \<not> P c}"
  by (induction x arbitrary: b) auto

lemma sub_runs_collapsed_aux:
  "P h \<Longrightarrow> collapsed P h (sub_runs P [h] b x)
     \<and> (b \<longrightarrow> sub_runs P [h] b x = [] \<or> \<not> P (hd (sub_runs P [h] b x)))"
proof (induction x arbitrary: b)
  case Nil
  then show ?case by (simp add: collapsed_def)
next
  case (Cons c cs)
  show ?case
  proof (cases "P c")
    case True
    note Pc = this
    show ?thesis
    proof (cases b)
      case True
      with Pc Cons.IH [OF Cons.prems, of True] show ?thesis by simp
    next
      case False
      from Cons.IH [OF Cons.prems, of True]
      have ih: "collapsed P h (sub_runs P [h] True cs)"
        "sub_runs P [h] True cs = [] \<or> \<not> P (hd (sub_runs P [h] True cs))" by simp_all
      have "collapsed P h (h # sub_runs P [h] True cs)"
        using ih by (cases "sub_runs P [h] True cs") (auto simp: collapsed_def)
      with Pc False show ?thesis by simp
    qed
  next
    case False
    from Cons.IH [OF Cons.prems, of False]
    have "collapsed P h (sub_runs P [h] False cs)" by simp
    then have "collapsed P h (c # sub_runs P [h] False cs)"
      using False by (cases "sub_runs P [h] False cs") (auto simp: collapsed_def)
    with False show ?thesis by simp
  qed
qed

lemma sub_runs_collapsed: "P h \<Longrightarrow> collapsed P h (sub_runs P [h] False x)"
  using sub_runs_collapsed_aux [of P h False x] by simp

lemma collapsed_sub_runs_aux:
  "collapsed P h t \<Longrightarrow> (b \<longrightarrow> t = [] \<or> \<not> P (hd t)) \<Longrightarrow> sub_runs P [h] b t = t"
proof (induction t arbitrary: b)
  case Nil
  then show ?case by simp
next
  case (Cons c cs)
  from Cons.prems(1) have tl: "collapsed P h cs"
    by (cases cs) (auto simp: collapsed_def)
  show ?case
  proof (cases "P c")
    case True
    with Cons.prems have "\<not> b" "c = h" by (auto simp: collapsed_def)
    from Cons.prems(1) True have "cs = [] \<or> \<not> P (hd cs)"
      by (cases cs) (auto simp: collapsed_def)
    with Cons.IH [OF tl, of True] have "sub_runs P [h] True cs = cs" by simp
    with True \<open>\<not> b\<close> \<open>c = h\<close> show ?thesis by simp
  next
    case False
    with Cons.IH [OF tl, of False] show ?thesis by simp
  qed
qed

lemma collapsed_sub_runs: "collapsed P h t \<Longrightarrow> sub_runs P [h] False t = t"
  by (rule collapsed_sub_runs_aux) simp_all

lemma collapsed_dropWhile: "collapsed P h t \<Longrightarrow> collapsed P h (dropWhile Q t)"
proof -
  assume c: "collapsed P h t"
  have "t = takeWhile Q t @ dropWhile Q t" by simp
  then have "successively (\<lambda>a b. \<not> (P a \<and> P b)) (takeWhile Q t @ dropWhile Q t)"
    using c by (simp add: collapsed_def)
  then have "successively (\<lambda>a b. \<not> (P a \<and> P b)) (dropWhile Q t)"
    by (simp only: successively_append_iff)
  moreover have "set (dropWhile Q t) \<subseteq> set t" by (rule set_dropWhileD [THEN subsetI])
  ultimately show ?thesis using c by (auto simp: collapsed_def)
qed

lemma collapsed_rev: "collapsed P h t \<Longrightarrow> collapsed P h (rev t)"
proof -
  assume c: "collapsed P h t"
  then have "successively (\<lambda>a b. \<not> (P a \<and> P b)) t" by (simp add: collapsed_def)
  then have "successively (\<lambda>a b. \<not> (P b \<and> P a)) t"
    by (rule successively_mono) auto
  with c show ?thesis by (simp add: collapsed_def)
qed

lemma collapsed_strip: "collapsed P h t \<Longrightarrow> collapsed P h (strip Q t)"
  by (simp add: strip_def lstrip_def rstrip_def collapsed_dropWhile collapsed_rev)

lemma set_strip: "set (strip Q t) \<subseteq> set t"
proof
  fix x
  assume "x \<in> set (strip Q t)"
  then have "x \<in> set (dropWhile Q (rev (dropWhile Q t)))"
    by (simp add: strip_def lstrip_def rstrip_def)
  then have "x \<in> set (rev (dropWhile Q t))" by (rule set_dropWhileD)
  then have "x \<in> set (dropWhile Q t)" by simp
  then show "x \<in> set t" by (rule set_dropWhileD)
qed

lemma lstrip_rstrip:
  assumes "dropWhile Q u = u"
  shows "dropWhile Q (rev (dropWhile Q (rev u))) = rev (dropWhile Q (rev u))"
proof (cases "rev (dropWhile Q (rev u)) = []")
  case True
  then show ?thesis by (simp only: dropWhile.simps)
next
  case False
  have "u = rev (dropWhile Q (rev u)) @ rev (takeWhile Q (rev u))"
    by (metis rev_append rev_rev_ident takeWhile_dropWhile_id)
  with False have hd: "hd (rev (dropWhile Q (rev u))) = hd u" and "u \<noteq> []"
    by (metis hd_append2, metis append_is_Nil_conv)
  with assms have "\<not> Q (hd u)" by (simp add: dropWhile_eq_self_iff)
  with hd show ?thesis by (simp add: dropWhile_eq_self_iff)
qed

lemma strip_idem: "strip Q (strip Q s) = strip Q s"
proof -
  have "dropWhile Q (dropWhile Q s) = dropWhile Q s" by simp
  then have "dropWhile Q (rev (dropWhile Q (rev (dropWhile Q s))))
             = rev (dropWhile Q (rev (dropWhile Q s)))"
    by (rule lstrip_rstrip)
  then show ?thesis by (simp add: strip_def lstrip_def rstrip_def)
qed

lemma heading_to_id_idem:
  assumes stable: "lower_stable U"
  shows "heading_to_id U (heading_to_id U s) = heading_to_id U s"
proof -
  define K where "K = (\<lambda>c. isword U c \<or> isspace U c \<or> c = hyphen)"
  define D where "D = (\<lambda>c. c = hyphen \<or> isspace U c)"
  define H where "H = (\<lambda>c::nat. c = hyphen)"
  define x where "x = lower U s"
  define y where "y = filter K x"
  define z where "z = sub_runs D [hyphen] False y"
  define t where "t = strip H z"
  have slug: "\<And>v. heading_to_id U v = strip H (sub_runs D [hyphen] False (filter K (lower U v)))"
    by (simp add: heading_to_id_def sub_delete_def K_def D_def H_def)
  have t: "heading_to_id U s = t"
    by (simp add: slug t_def z_def y_def x_def)
  have set_z: "set z \<subseteq> insert hyphen {c \<in> set y. \<not> D c}"
    using set_sub_runs [of D "[hyphen]" False y] by (auto simp: z_def)
  have set_t: "set t \<subseteq> set z" by (simp add: t_def set_strip)
  have "set t \<subseteq> insert hyphen (set (lower U s))"
    using set_t set_z by (auto simp: y_def x_def)
  with stable have low: "lower U t = t" by (simp add: lower_stable_def)
  have "\<forall>c \<in> set t. K c"
    using set_t set_z by (auto simp: y_def K_def)
  then have fil: "filter K t = t" by simp
  have "collapsed D hyphen z"
    unfolding z_def by (rule sub_runs_collapsed) (simp add: D_def)
  then have "collapsed D hyphen t" by (simp add: t_def collapsed_strip)
  then have runs: "sub_runs D [hyphen] False t = t" by (rule collapsed_sub_runs)
  have str: "strip H t = t" by (simp add: t_def strip_idem)
  show ?thesis by (simp add: t slug [of t] low fil runs str)
qed

lemma to_kebab_case_idem:
  assumes stable: "lower_stable U" and words: "lowers_to_words U s"
  shows "to_kebab_case U (to_kebab_case U s) = to_kebab_case U s"
proof -
  define K where "K = (\<lambda>c. isword U c \<or> isspace U c \<or> c = hyphen)"
  define H where "H = (\<lambda>c::nat. c = hyphen)"
  define z where "z = kebab_prelower U s"
  define x where "x = lower U z"
  define w where "w = sub_runs H [hyphen] False x"
  define t where "t = strip H w"
  have kebab: "\<And>v. to_kebab_case U v = strip H (sub_runs H [hyphen] False (lower U (kebab_prelower U v)))"
    by (simp add: to_kebab_case_def kebab_prelower_def H_def)
  have t: "to_kebab_case U s = t"
    by (simp add: kebab t_def w_def x_def z_def)
  from words have nospace: "\<not> isspace U hyphen" and wx: "list_all (wordlike U) x"
    by (simp_all add: lowers_to_words_def x_def z_def)
  have set_w: "set w \<subseteq> insert hyphen (set x)"
    using set_sub_runs [of H "[hyphen]" False x] by (auto simp: w_def)
  have set_t: "set t \<subseteq> set w" by (simp add: t_def set_strip)
  have wt: "\<forall>c \<in> set t. wordlike U c"
    using set_t set_w wx nospace by (auto simp: list_all_iff wordlike_def)
  then have fil: "filter K t = t" by (auto simp: wordlike_def K_def)
  from wt have "\<forall>c \<in> set t. \<not> isspace U c" by (simp add: wordlike_def)
  then have sp: "sub_runs (isspace U) [hyphen] False t = t" by (rule sub_runs_id)
  have pre: "kebab_prelower U t = t"
    using fil sp by (simp add: kebab_prelower_def sub_delete_def K_def)
  have "set t \<subseteq> insert hyphen (set (lower U z))"
    using set_t set_w by (auto simp: x_def)
  with stable have low: "lower U t = t" by (simp add: lower_stable_def)
  have "collapsed H hyphen w"
    unfolding w_def by (rule sub_runs_collapsed) (simp add: H_def)
  then have "collapsed H hyphen t" by (simp add: t_def collapsed_strip)
  then have runs: "sub_runs H [hyphen] False t = t" by (rule collapsed_sub_runs)
  have str: "strip H t = t" by (simp add: t_def strip_idem)
  show ?thesis by (simp add: t kebab [of t] pre low runs str)
qed

lemma ascii_lower_stable: "lower_stable ascii_ucd"
proof -
  have "\<And>s t. set t \<subseteq> insert hyphen (set (map ascii_lower_char s)) \<Longrightarrow> map ascii_lower_char t = t"
  proof (rule map_idI)
    fix s t c
    assume "set t \<subseteq> insert hyphen (set (map ascii_lower_char s))" and "c \<in> set t"
    then have "c = hyphen \<or> (\<exists>d. c = ascii_lower_char d)" by auto
    then show "ascii_lower_char c = c"
      by (auto simp: ascii_lower_char_def ascii_isupper_def hyphen_def split: if_splits)
  qed
  then show ?thesis by (simp add: lower_stable_def ascii_ucd_def)
qed

text \<open>
  C10, as the code has it. With character tables for which \<open>lower\<close> is stable, as
  Python's are, the heading slugifier is idempotent on every string, and the kebab-case
  normalizer is idempotent on every string whose lowered text consists of word characters
  and hyphens; every ASCII string is one.
\<close>

theorem slug_and_kebab_idempotent:
  "lower_stable U \<Longrightarrow>
     heading_to_id U (heading_to_id U s) = heading_to_id U s
     \<and> (lowers_to_words U t \<longrightarrow> to_kebab_case U (to_kebab_case U t) = to_kebab_case U t)"
  by (simp add: heading_to_id_idem to_kebab_case_idem)

lemma slug_example: "heading_to_id ascii_ucd (str ''What's the Problem?'') = str ''whats-the-problem''"
  by (simp add: heading_to_id_def ascii_defs text_defs)

lemma kebab_example: "to_kebab_case ascii_ucd (str ''User  Management!'') = str ''user-management''"
  by (simp add: to_kebab_case_def ascii_defs text_defs)

lemma kebab_example_words: "lowers_to_words ascii_ucd (str ''User  Management!'')"
  by (simp add: lowers_to_words_def kebab_prelower_def wordlike_def ascii_defs text_defs)

text \<open>The ASCII tables are stable; one slug and one kebab-case name.\<close>

theorem slug_and_kebab_idempotent_witness:
  "lower_stable ascii_ucd \<and> lowers_to_words ascii_ucd (str ''User  Management!'')
   \<and> heading_to_id ascii_ucd (str ''What's the Problem?'') = str ''whats-the-problem''
   \<and> heading_to_id ascii_ucd (str ''whats-the-problem'') = str ''whats-the-problem''
   \<and> to_kebab_case ascii_ucd (str ''User  Management!'') = str ''user-management''
   \<and> to_kebab_case ascii_ucd (str ''user-management'') = str ''user-management''"
  using slug_and_kebab_idempotent [OF ascii_lower_stable, of "str ''What's the Problem?''"
      "str ''User  Management!''"]
    ascii_lower_stable kebab_example_words slug_example kebab_example
  by simp

text \<open>
  C10 as stated fails for the kebab-case normalizer: the word character U+0130 survives
  the first filter and is lowered to U+0069 U+0307 afterwards; on the second application
  the filter removes U+0307, which is not a word character.
\<close>

theorem kebab_not_idempotent_counterexample:
  "to_kebab_case dotted_ucd [304] = [105, 775]
   \<and> to_kebab_case dotted_ucd (to_kebab_case dotted_ucd [304]) = [105]
   \<and> to_kebab_case dotted_ucd (to_kebab_case dotted_ucd [304]) \<noteq> to_kebab_case dotted_ucd [304]"
  by (simp add: to_kebab_case_def dotted_ucd_def dotted_lower_char_def ascii_defs text_defs)

subsection \<open>Circular dependencies\<close>

text \<open>
  With upstream links of the class \<^verbatim>\<open>TraceabilityLink\<close>, the depth-first search does
  what its documentation says: two constitutions with different names whose dependency
  sets are each other's name give exactly one cycle, from the first name through the
  second back to the first, provided that the interpreter allows two nested calls.
\<close>

lemma mutual_dependency_one_cycle:
  assumes ab: "name A \<noteq> name B"
    and depsA: "collect_deps (upstream_links A) [] = Inr [name B]"
    and depsB: "collect_deps (upstream_links B) [] = Inr [name A]"
    and order: "\<And>x. set_order [x] = [x]"
    and limit: "2 \<le> limit"
  shows "detect_circular_dependencies limit set_order [A, B] = Inr [[name A, name B, name A]]"
proof -
  from limit obtain d where d: "limit = Suc (Suc d)"
    by (metis Suc_le_D numeral_2_eq_2 Suc_le_mono)
  have graph: "build_graph [A, B] [] = Inr [(name A, [name B]), (name B, [name A])]"
    using ab by (simp add: depsA depsB)
  have run: "dfs_all limit [(name A, [name B]), (name B, [name A])] set_order [name A, name B]
               \<lparr>visited = [], rec_stack = [], cycles = []\<rparr>
             = Inr \<lparr>visited = [name A, name B], rec_stack = [],
                     cycles = [[name A, name B, name A]]\<rparr>"
    using ab by (simp add: d graph_get_def order set_add_def set_remove_def Let_def)
  have keys: "dict_keys [(name A, [name B]), (name B, [name A])] = [name A, name B]"
    by (simp add: dict_keys_def)
  show ?thesis
    unfolding detect_circular_dependencies_def graph sum.case keys run
    by simp
qed

lemma mutual_dependency_example:
  "detect_circular_dependencies 1000 (\<lambda>xs. xs) [users_tl, auth_tl]
     = Inr [[str ''001-users'', str ''002-auth'', str ''001-users'']]"
proof -
  have "collect_deps (upstream_links users_tl) [] = Inr [name auth_tl]"
    by (simp add: users_tl_def auth_tl_def feature_constitution_def trace_link_to_def demo_link_def
        get_target_file_def path_str_def path_stem_def path_name_def set_add_def str_def)
  moreover have "collect_deps (upstream_links auth_tl) [] = Inr [name users_tl]"
    by (simp add: users_tl_def auth_tl_def feature_constitution_def trace_link_to_def demo_link_def
        get_target_file_def path_str_def path_stem_def path_name_def set_add_def str_def)
  moreover have "name users_tl \<noteq> name auth_tl"
    by (simp add: users_tl_def auth_tl_def feature_constitution_def str_def)
  ultimately have "detect_circular_dependencies 1000 (\<lambda>xs. xs) [users_tl, auth_tl]
     = Inr [[name users_tl, name auth_tl, name users_tl]]"
    by (intro mutual_dependency_one_cycle) simp_all
  then show ?thesis
    by (simp add: users_tl_def auth_tl_def feature_constitution_def)
qed

text \<open>
  C4, the code at the failing input. The upstream links of a constitution are
  \<^verbatim>\<open>MarkdownLink\<close> objects, which have no attribute \<^verbatim>\<open>target_file\<close>: for two feature
  constitutions that link to each other, building the dependency graph raises
  \<^verbatim>\<open>AttributeError\<close>, and no cycle is returned.
\<close>

theorem detect_circular_dependencies_raises:
  "detect_circular_dependencies limit set_order [users_md, auth_md] = Inl AttributeError"
  by (simp add: detect_circular_dependencies_def users_md_def feature_constitution_def
      md_link_to_def get_target_file_def)

subsection \<open>Orphaned principles\<close>

text \<open>
  With upstream links of the class \<^verbatim>\<open>TraceabilityLink\<close> throughout, the function
  returns the pairs of a strategic constitution's name and the id of one of its principles
  whose key is not among the reference keys, and no others.
\<close>

lemma set_set_add: "set (set_add x xs) = insert x (set xs)"
  by (auto simp: set_add_def)

lemma link_keys_Cons_tl:
  "link_keys (TraceabilityLinkObj l # links) =
     (if truthy (target_section l)
      then insert (ref_key (path_stem (target_file l)) (the (target_section l))) (link_keys links)
      else link_keys links)"
  by (auto simp: link_keys_def)

lemma collect_refs_traceability:
  "list_all is_traceability links
   \<Longrightarrow> \<exists>refs'. collect_refs links refs = Inr refs' \<and> set refs' = set refs \<union> link_keys links"
proof (induction links arbitrary: refs)
  case Nil
  then show ?case by (simp add: link_keys_def)
next
  case (Cons link links)
  then obtain l where l: "link = TraceabilityLinkObj l" and rest: "list_all is_traceability links"
    by (cases link) auto
  show ?case
  proof (cases "truthy (target_section l)")
    case True
    from Cons.IH [OF rest, of "set_add (ref_key (path_stem (target_file l)) (the (target_section l))) refs"]
    obtain refs' where "collect_refs links (set_add (ref_key (path_stem (target_file l)) (the (target_section l))) refs) = Inr refs'"
      and "set refs' = insert (ref_key (path_stem (target_file l)) (the (target_section l))) (set refs) \<union> link_keys links"
      by (auto simp: set_set_add)
    with True l show ?thesis
      by (simp add: get_target_section_def get_target_file_def link_keys_Cons_tl)
  next
    case False
    from Cons.IH [OF rest, of refs]
    obtain refs' where "collect_refs links refs = Inr refs'"
      and "set refs' = set refs \<union> link_keys links" by blast
    with False l show ?thesis
      by (simp add: get_target_section_def link_keys_Cons_tl)
  qed
qed

lemma referenced_principles_traceability:
  "list_all (\<lambda>c. list_all is_traceability (upstream_links c)) cs
   \<Longrightarrow> \<exists>refs'. referenced_principles cs refs = Inr refs'
         \<and> set refs' = set refs \<union> referenced_keys cs"
proof (induction cs arbitrary: refs)
  case Nil
  then show ?case by (simp add: referenced_keys_def)
next
  case (Cons c cs)
  then have c: "list_all is_traceability (upstream_links c)"
    and rest: "list_all (\<lambda>c. list_all is_traceability (upstream_links c)) cs" by simp_all
  from collect_refs_traceability [OF c, of refs] obtain r1 where
    r1: "collect_refs (upstream_links c) refs = Inr r1"
       "set r1 = set refs \<union> link_keys (upstream_links c)" by blast
  from Cons.IH [OF rest, of r1] obtain r2 where
    r2: "referenced_principles cs r1 = Inr r2" "set r2 = set r1 \<union> referenced_keys cs" by blast
  from r1 r2 show ?case by (auto simp: referenced_keys_def)
qed

lemma orphans_of_iff:
  "(n, p) \<in> set (orphans_of refs c) \<longleftrightarrow>
     constitution_type c = STRATEGIC \<and> name c = n \<and> p \<in> principle_id ` set (principles c)
       \<and> ref_key n p \<notin> set refs"
  by (auto simp: orphans_of_def)

lemma orphaned_principles_traceability:
  assumes "list_all (\<lambda>c. list_all is_traceability (upstream_links c)) cs"
  shows "\<exists>rs. get_orphaned_principles cs = Inr rs
           \<and> (\<forall>n p. (n, p) \<in> set rs \<longleftrightarrow>
                 (\<exists>c \<in> set cs. constitution_type c = STRATEGIC \<and> name c = n
                     \<and> p \<in> principle_id ` set (principles c)
                     \<and> ref_key n p \<notin> referenced_keys cs))"
proof -
  from referenced_principles_traceability [OF assms, of "[]"] obtain refs where
    refs: "referenced_principles cs [] = Inr refs" "set refs = referenced_keys cs" by auto
  have run: "get_orphaned_principles cs = Inr (concat (map (orphans_of refs) cs))"
    by (simp add: get_orphaned_principles_def refs(1))
  have "\<forall>n p. (n, p) \<in> set (concat (map (orphans_of refs) cs)) \<longleftrightarrow>
                 (\<exists>c \<in> set cs. constitution_type c = STRATEGIC \<and> name c = n
                     \<and> p \<in> principle_id ` set (principles c)
                     \<and> ref_key n p \<notin> referenced_keys cs)"
    using orphans_of_iff [of _ _ refs] by (simp add: refs(2))
  with run show ?thesis by blast
qed

lemma orphaned_principles_example:
  "get_orphaned_principles [company_tl, users_ref_tl]
     = Inr [(str ''company-constitution'', str ''principle-2'')]"
  by (simp add: get_orphaned_principles_def company_tl_def users_ref_tl_def
      company_constitution_def feature_constitution_def trace_link_to_def demo_link_def
      get_target_section_def get_target_file_def truthy_def path_stem_def path_name_def
      ref_key_def set_add_def orphans_of_def str_def)

text \<open>
  C5, the code at the failing input. For a strategic constitution with a principle and
  one upstream link, a \<^verbatim>\<open>MarkdownLink\<close> as \<^verbatim>\<open>Constitution.parse\<close> produces it,
  reading \<^verbatim>\<open>link.target_section\<close> raises \<^verbatim>\<open>AttributeError\<close>, and no principle is
  reported.
\<close>

theorem get_orphaned_principles_raises:
  "get_orphaned_principles [company_md] = Inl AttributeError"
  by (simp add: get_orphaned_principles_def company_md_def company_constitution_def
      md_link_to_def get_target_section_def)

subsection \<open>Matches of a pattern\<close>

text \<open>
  Positions only move forward, a match of a consuming pattern is not empty, and a pattern
  binds no group but its own.
\<close>


lemma rep_loop_rel:
  assumes step: "\<And>st st'. st' \<in> set (step st) \<Longrightarrow> R st st'"
    and refl: "\<And>st. R st st"
    and trans: "\<And>a b c. R a b \<Longrightarrow> R b c \<Longrightarrow> R a c"
  shows "st' \<in> set (rep_loop step fuel lo hi k st) \<Longrightarrow> R st st'"
proof (induction fuel arbitrary: k st)
  case 0
  then show ?case by (auto simp: rep_loop.simps refl split: if_splits)
next
  case (Suc fuel)
  from Suc.prems consider (stop) "st' = st"
    | (more) st1 where "st1 \<in> set (step st)" "st' \<in> set (rep_loop step fuel lo hi (Suc k) st1)"
    by (auto simp: rep_loop.simps split: if_splits)
  then show ?case
  proof cases
    case stop
    then show ?thesis by (simp add: refl)
  next
    case more
    from step [OF more(1)] Suc.IH [OF more(2)] show ?thesis by (rule trans)
  qed
qed

lemma rx_match_pos:
  "(j, cs') \<in> set (rx_match r E (i, cs)) \<Longrightarrow> i \<le> j \<and> (i \<le> length (subject E) \<longrightarrow> j \<le> length (subject E))"
proof (induction r arbitrary: i cs j cs')
  case (Cat a b)
  then show ?case by fastforce
next
  case (Rep lo hi a)
  have "(\<lambda>st st'. fst st \<le> fst st' \<and> (fst st \<le> length (subject E) \<longrightarrow> fst st' \<le> length (subject E))) (i, cs) (j, cs')"
  proof (rule rep_loop_rel [where step = "rx_match a E"
        and R = "\<lambda>st st'. fst st \<le> fst st' \<and> (fst st \<le> length (subject E) \<longrightarrow> fst st' \<le> length (subject E))"])
    show "(j, cs') \<in> set (rep_loop (rx_match a E) (Suc (length (subject E) - i)) lo hi 0 (i, cs))"
      using Rep.prems by simp
  next
    fix st st' :: mstate
    assume "st' \<in> set (rx_match a E st)"
    then show "fst st \<le> fst st' \<and> (fst st \<le> length (subject E) \<longrightarrow> fst st' \<le> length (subject E))"
      using Rep.IH [of "fst st'" "snd st'" "fst st" "snd st"] by simp
  qed auto
  then show ?case by simp
qed (auto split: if_splits)

lemma rep_loop_result:
  assumes mono: "\<And>st st'. st' \<in> set (step st) \<Longrightarrow> fst st \<le> fst st'"
  shows "st' \<in> set (rep_loop step fuel lo hi k st)
   \<Longrightarrow> (st' = st \<and> (lo \<le> k \<or> hi = Some k))
       \<or> (\<exists>st0. st' \<in> set (step st0) \<and> fst st \<le> fst st0 \<and> fst st0 < fst st')"
proof (induction fuel arbitrary: k st)
  case 0
  then show ?case by (auto simp: rep_loop.simps split: if_splits)
next
  case (Suc fuel)
  from Suc.prems consider (stop) "st' = st" "lo \<le> k \<or> hi = Some k"
    | (more) st1 where "st1 \<in> set (step st)" "fst st < fst st1"
        "st' \<in> set (rep_loop step fuel lo hi (Suc k) st1)"
    by (auto simp: rep_loop.simps split: if_splits)
  then show ?case
  proof cases
    case stop
    then show ?thesis by simp
  next
    case more
    from Suc.IH [OF more(3)] show ?thesis
    proof
      assume "st' = st1 \<and> (lo \<le> Suc k \<or> hi = Some (Suc k))"
      with more(1,2) have "st' \<in> set (step st) \<and> fst st \<le> fst st \<and> fst st < fst st'" by simp
      then show ?thesis by blast
    next
      assume "\<exists>st0. st' \<in> set (step st0) \<and> fst st1 \<le> fst st0 \<and> fst st0 < fst st'"
      then obtain st0 where "st' \<in> set (step st0)" "fst st1 \<le> fst st0" "fst st0 < fst st'"
        by blast
      with more(2) have "st' \<in> set (step st0) \<and> fst st \<le> fst st0 \<and> fst st0 < fst st'"
        by simp
      then show ?thesis by blast
    qed
  qed
qed

lemma rx_match_mono: "st' \<in> set (rx_match r E st) \<Longrightarrow> fst st \<le> fst st'"
  using rx_match_pos [of "fst st'" "snd st'" r E "fst st" "snd st"] by simp

lemma rx_match_consuming:
  "consuming r \<Longrightarrow> (j, cs') \<in> set (rx_match r E (i, cs)) \<Longrightarrow> i < j"
proof (induction r arbitrary: i cs j cs')
  case (Cat a b)
  from Cat.prems(2) obtain m cm where
    m: "(m, cm) \<in> set (rx_match a E (i, cs))" "(j, cs') \<in> set (rx_match b E (m, cm))"
    by auto
  from rx_match_pos [OF m(1)] rx_match_pos [OF m(2)] have "i \<le> m" "m \<le> j" by simp_all
  with Cat.prems(1) Cat.IH m show ?case by fastforce
next
  case (Rep lo hi a)
  from Rep.prems(2)
  have "(j, cs') \<in> set (rep_loop (rx_match a E) (Suc (length (subject E) - i)) lo hi 0 (i, cs))"
    by simp
  have run: "(j, cs') \<in> set (rep_loop (rx_match a E) (Suc (length (subject E) - i)) lo hi 0 (i, cs))"
    by fact
  have mono: "\<And>st st'. st' \<in> set (rx_match a E st) \<Longrightarrow> fst st \<le> fst st'"
    by (rule rx_match_mono)
  from rep_loop_result [where step = "rx_match a E", OF mono run] Rep.prems(1)
  obtain st0 where "i \<le> fst st0" "fst st0 < j" by auto
  then show ?case by simp
qed (auto split: if_splits)

lemma rx_match_nogroup:
  "nogroup k r \<Longrightarrow> (j, cs') \<in> set (rx_match r E (i, cs)) \<Longrightarrow> find_cap cs' k = find_cap cs k"
proof (induction r arbitrary: i cs j cs')
  case (Cat a b)
  then show ?case by fastforce
next
  case (Rep lo hi a)
  have "(\<lambda>st st'. find_cap (snd st') k = find_cap (snd st) k) (i, cs) (j, cs')"
  proof (rule rep_loop_rel [where step = "rx_match a E"
        and R = "\<lambda>st st'. find_cap (snd st') k = find_cap (snd st) k"])
    show "(j, cs') \<in> set (rep_loop (rx_match a E) (Suc (length (subject E) - i)) lo hi 0 (i, cs))"
      using Rep.prems by simp
  next
    fix st st' :: mstate
    assume "st' \<in> set (rx_match a E st)"
    then show "find_cap (snd st') k = find_cap (snd st) k"
      using Rep.IH [of "fst st'" "snd st'" "fst st" "snd st"] Rep.prems(1) by simp
  qed auto
  then show ?case by simp
qed (auto split: if_splits)

lemma rx_match_binds:
  "binds k r \<Longrightarrow> (j, cs') \<in> set (rx_match r E (i, cs)) \<Longrightarrow> i \<le> length (subject E)
   \<Longrightarrow> \<exists>a b. find_cap cs' k = Some (a, b) \<and> a < b \<and> b \<le> length (subject E)"
proof (induction r arbitrary: i cs j cs')
  case (Cat a b)
  from Cat.prems(2) obtain m cm where
    m: "(m, cm) \<in> set (rx_match a E (i, cs))" "(j, cs') \<in> set (rx_match b E (m, cm))"
    by auto
  from rx_match_pos [OF m(1)] Cat.prems(3) have mlen: "m \<le> length (subject E)" by simp
  from Cat.prems(1) consider "binds k b" | "binds k a" "nogroup k b" by auto
  then show ?case
  proof cases
    case 1
    from Cat.IH(2) [OF 1 m(2) mlen] show ?thesis .
  next
    case 2
    from rx_match_nogroup [OF 2(2) m(2)] Cat.IH(1) [OF 2(1) m(1) Cat.prems(3)]
    show ?thesis by simp
  qed
next
  case (Alt a b)
  then show ?case by fastforce
next
  case (Grp n a)
  from Grp.prems(2) obtain c0 where c0: "(j, c0) \<in> set (rx_match a E (i, cs))"
    and cs': "cs' = (n, i, j) # c0" by auto
  show ?case
  proof (cases "n = k")
    case True
    with Grp.prems(1) have "consuming a" by simp
    from rx_match_consuming [OF this c0] rx_match_pos [OF c0] Grp.prems(3) True cs'
    show ?thesis by simp
  next
    case False
    with Grp.prems(1) have "binds k a" by simp
    from Grp.IH [OF this c0 Grp.prems(3)] False cs' show ?thesis by simp
  qed
qed simp_all

lemma slice_nonempty: "a < b \<Longrightarrow> b \<le> length s \<Longrightarrow> slice s a b \<noteq> []"
  by (simp add: slice_def)

lemma re_match_caps:
  assumes "re_match U r ic ml s = Some m"
  shows "\<exists>j. (j, m_caps m) \<in> set (rx_match r (re_env U ic ml s) (0, [])) \<and> m_text m = s"
  using assms by (auto simp: re_match_def split: list.splits)

lemma bullet_group:
  assumes "re_match U bullet_pattern False True line = Some m"
  shows "group_or m 1 2 \<noteq> None"
proof -
  let ?E = "re_env U False True line"
  from re_match_caps [OF assms] obtain j where
    j: "(j, m_caps m) \<in> set (rx_match bullet_pattern ?E (0, []))" and mt: "m_text m = line"
    by blast
  have subj: "subject ?E = line" by (simp add: re_env_def)
  have "rx_match bullet_pattern ?E (0, [])
        = rx_match bullet_mark_pattern ?E (0, []) @ rx_match bullet_number_pattern ?E (0, [])"
    by (simp only: bullet_pattern_def rx_match.simps)
  with j consider (left) "(j, m_caps m) \<in> set (rx_match bullet_mark_pattern ?E (0, []))"
    | (right) "(j, m_caps m) \<in> set (rx_match bullet_number_pattern ?E (0, []))"
    by auto
  then show ?thesis
  proof cases
    case left
    have "binds 1 bullet_mark_pattern" by (simp add: bullet_mark_pattern_def plus_def star_def)
    from rx_match_binds [OF this left] subj obtain a b where
      "find_cap (m_caps m) 1 = Some (a, b)" "a < b" "b \<le> length line" by auto
    then have "truthy (group m 1)"
      by (simp add: group_def truthy_def mt slice_nonempty)
    then show ?thesis by (auto simp: group_or_def truthy_def split: option.splits)
  next
    case right
    have "binds 2 bullet_number_pattern"
      by (simp add: bullet_number_pattern_def plus_def star_def)
    from rx_match_binds [OF this right] subj obtain a b where
      "find_cap (m_caps m) 2 = Some (a, b)" by auto
    then have "group m 2 \<noteq> None" by (simp add: group_def)
    then show ?thesis by (auto simp: group_or_def truthy_def split: option.splits)
  qed
qed

lemma bullet_lines_ok:
  assumes P: "\<And>content fn. P (bullet_feature U sid content fn)"
  shows "\<forall>f \<in> set acc. P f
   \<Longrightarrow> \<exists>fs. bullet_lines U sid lines acc = Inr fs \<and> (\<forall>f \<in> set fs. P f)"
proof (induction lines arbitrary: acc)
  case Nil
  then show ?case by simp
next
  case (Cons line lines)
  show ?case
  proof (cases "re_match U bullet_pattern False True line")
    case None
    with Cons show ?thesis by simp
  next
    case (Some m)
    from bullet_group [OF Some] obtain c0 where c0: "group_or m 1 2 = Some c0" by auto
    have "\<And>fn. \<forall>f \<in> set (acc @ [bullet_feature U sid (strip (isspace U) c0) fn]). P f"
      using Cons.prems P by simp
    with Cons.IH Cons.prems Some c0 show ?thesis
      by (simp add: Let_def split: option.splits)
  qed
qed

lemma finditer_from_caps:
  "m \<in> set (finditer_from r E i)
   \<Longrightarrow> \<exists>i' j. i' \<le> length (subject E) \<and> (j, m_caps m) \<in> set (rx_match r E (i', []))
         \<and> m_text m = subject E"
proof (induction r E i rule: finditer_from.induct)
  case (1 r E i)
  show ?case
  proof (cases "length (subject E) < i")
    case True
    with "1.prems" show ?thesis by (simp add: finditer_from.simps [of r E i])
  next
    case False
    note inside = this
    show ?thesis
    proof (cases "rx_match r E (i, [])")
      case Nil
      with inside "1.prems" have "m \<in> set (finditer_from r E (Suc i))"
        by (simp add: finditer_from.simps [of r E i])
      with "1.IH"(1) [OF inside Nil] show ?thesis by blast
    next
      case (Cons x rest)
      obtain j cs where x: "x = (j, cs)" by (cases x)
      from inside Cons x "1.prems" consider
          (here) "m = \<lparr>m_start = i, m_end = j, m_caps = cs, m_text = subject E\<rparr>"
        | (later) "m \<in> set (finditer_from r E (if i < j then j else Suc i))"
        by (auto simp: finditer_from.simps [of r E i])
      then show ?thesis
      proof cases
        case here
        have "(j, cs) \<in> set (rx_match r E (i, []))" using Cons x by simp
        with here inside have "i \<le> length (subject E)
            \<and> (j, m_caps m) \<in> set (rx_match r E (i, [])) \<and> m_text m = subject E"
          by simp
        then show ?thesis by blast
      next
        case later
        from "1.IH"(2) [OF inside Cons x [symmetric] later] show ?thesis .
      qed
    qed
  qed
qed

lemma verb_group:
  assumes "m \<in> set (re_finditer U (verb_pattern verb) True False s)"
  shows "group m 1 \<noteq> None"
proof -
  from finditer_from_caps [OF assms [unfolded re_finditer_def]] obtain i' j where
    i': "i' \<le> length (subject (re_env U True False s))"
    and j: "(j, m_caps m) \<in> set (rx_match (verb_pattern verb) (re_env U True False s) (i', []))"
    by blast
  have "binds 1 (verb_pattern verb)"
    by (simp add: verb_pattern_def plus_def opt_def)
  from rx_match_binds [OF this j i'] show ?thesis by (auto simp: group_def)
qed

lemma verb_matches_ok:
  assumes P: "\<And>obj. P (verb_feature U sid verb obj)"
  shows "\<forall>m \<in> set ms. group m 1 \<noteq> None \<Longrightarrow> \<forall>f \<in> set acc. P f
   \<Longrightarrow> \<exists>fs. verb_matches U sid verb ms acc = Inr fs \<and> (\<forall>f \<in> set fs. P f)"
proof (induction ms arbitrary: acc)
  case Nil
  then show ?case by simp
next
  case (Cons m ms)
  then obtain obj where obj: "group m 1 = Some obj" by auto
  have "\<forall>f \<in> set (acc @ [verb_feature U sid verb obj]). P f"
    using Cons.prems(2) P by simp
  from Cons.IH [OF _ this] Cons.prems(1) obj show ?case by simp
qed

lemma verbs_loop_ok:
  assumes P: "\<And>verb obj. P (verb_feature U sid verb obj)"
  shows "\<forall>f \<in> set acc. P f
   \<Longrightarrow> \<exists>fs. verbs_loop U s sid verbs acc = Inr fs \<and> (\<forall>f \<in> set fs. P f)"
proof (induction verbs arbitrary: acc)
  case Nil
  then show ?case by simp
next
  case (Cons verb verbs)
  have "\<forall>m \<in> set (re_finditer U (verb_pattern verb) True False s). group m 1 \<noteq> None"
    using verb_group by blast
  from verb_matches_ok [where P = P, OF P this Cons.prems] obtain fs1 where
    fs1: "verb_matches U sid verb (re_finditer U (verb_pattern verb) True False s) acc = Inr fs1"
      "\<forall>f \<in> set fs1. P f" by blast
  from Cons.IH [OF fs1(2)] fs1(1) show ?case by simp
qed

subsection \<open>Feature detection\<close>

lemma to_kebab_case_chars:
  "set (to_kebab_case U s) \<subseteq> insert hyphen (set (lower U (kebab_prelower U s)))"
proof -
  define H where "H = (\<lambda>c::nat. c = hyphen)"
  define x where "x = lower U (kebab_prelower U s)"
  have kebab: "to_kebab_case U s = strip H (sub_runs H [hyphen] False x)"
    by (simp add: to_kebab_case_def kebab_prelower_def H_def x_def)
  have "set (sub_runs H [hyphen] False x) \<subseteq> insert hyphen (set x)"
    using set_sub_runs [of H "[hyphen]" False x] by auto
  with set_strip [of H "sub_runs H [hyphen] False x"] show ?thesis
    unfolding kebab x_def by blast
qed

lemma lower_kebab: "lower_stable U \<Longrightarrow> lower U (to_kebab_case U s) = to_kebab_case U s"
  using to_kebab_case_chars [of U s] by (simp add: lower_stable_def)

lemma dedup_loop_first_by_name:
  "\<forall>f \<in> set fs. lower U (DetectedFeature.name f) = DetectedFeature.name f \<Longrightarrow> set seen = set seen'
   \<Longrightarrow> dedup_loop U fs seen acc = acc @ first_by_name fs seen'"
proof (induction fs arbitrary: seen seen' acc)
  case Nil
  then show ?case by simp
next
  case (Cons f fs)
  from Cons.prems have low: "lower U (DetectedFeature.name f) = DetectedFeature.name f"
    and rest: "\<forall>f \<in> set fs. lower U (DetectedFeature.name f) = DetectedFeature.name f" by simp_all
  show ?case
  proof (cases "DetectedFeature.name f \<in> set seen")
    case True
    with Cons.IH [OF rest Cons.prems(2)] Cons.prems(2) low show ?thesis by simp
  next
    case False
    have "set (set_add (DetectedFeature.name f) seen) = set (DetectedFeature.name f # seen')"
      using Cons.prems(2) by (auto simp: set_add_def)
    from Cons.IH [OF rest this] False Cons.prems(2) low show ?thesis by simp
  qed
qed

lemma deduplicate_features_first_by_name:
  "\<forall>f \<in> set fs. lower U (DetectedFeature.name f) = DetectedFeature.name f
   \<Longrightarrow> deduplicate_features U fs = first_by_name fs []"
  using dedup_loop_first_by_name [of fs U "[]" "[]" "[]"]
  by (cases fs) (simp_all add: deduplicate_features_def)

lemma enumerate_map_index:
  "map (\<lambda>(i, x). g i x) (enumerate n xs) = map (\<lambda>i. g (n + i) (xs ! i)) [0..<length xs]"
  by (rule nth_equalityI) (simp_all add: nth_enumerate_eq)

lemma assign_priorities_rank:
  "assign_priorities fs = with_rank_priorities (sorted_by_confidence fs)"
  unfolding assign_priorities_def with_rank_priorities_def
  using enumerate_map_index [of "\<lambda>i f. f\<lparr>priority := priority_of_rank i\<rparr>" 0 "sorted_by_confidence fs"]
  by simp

lemma assign_ids_sequential: "assign_ids fs = with_sequential_ids fs"
  unfolding assign_ids_def with_sequential_ids_def
  using enumerate_map_index [of "\<lambda>i f. f\<lparr>id' := format_03d i\<rparr>" 1 fs]
  by simp

lemma length_with_rank_priorities [simp]: "length (with_rank_priorities fs) = length fs"
  by (simp add: with_rank_priorities_def)

lemma length_with_sequential_ids [simp]: "length (with_sequential_ids fs) = length fs"
  by (simp add: with_sequential_ids_def)

lemma length_sorted_by_confidence [simp]: "length (sorted_by_confidence fs) = length fs"
  by (simp add: sorted_by_confidence_def)

lemma confidence_with_rank_priorities:
  "map (\<lambda>f. - DetectedFeature.confidence f) (with_rank_priorities fs)
   = map (\<lambda>f. - DetectedFeature.confidence f) fs"
  by (rule nth_equalityI) (simp_all add: with_rank_priorities_def)

lemma sorted_by_confidence_sorted:
  "sorted (map (\<lambda>f. - DetectedFeature.confidence f) (sorted_by_confidence fs))"
  by (simp add: sorted_by_confidence_def)

lemma sorted_by_confidence_id:
  "sorted (map (\<lambda>f. - DetectedFeature.confidence f) fs) \<Longrightarrow> sorted_by_confidence fs = fs"
  by (simp add: sorted_by_confidence_def sort_key_id_if_sorted)

lemma take_with_rank_priorities:
  "take n (with_rank_priorities fs) = with_rank_priorities (take n fs)"
  by (rule nth_equalityI) (simp_all add: with_rank_priorities_def)

lemma sorted_take_conf:
  "sorted (map (\<lambda>f. - DetectedFeature.confidence f) (take n (sorted_by_confidence fs)))"
  using sorted_by_confidence_sorted [of fs] by (simp add: take_map [symmetric] sorted_wrt_take)

lemma pipeline_after_dedup:
  "(let features2 = assign_priorities d;
        features3 = (if length features2 > 10
                     then take 10 (sorted_by_confidence features2) else features2)
    in assign_ids features3)
   = with_sequential_ids (with_rank_priorities (sorted_by_confidence (keep_top_10 d)))"
proof -
  let ?S = "sorted_by_confidence d"
  have "sorted (map (\<lambda>f. - DetectedFeature.confidence f) (with_rank_priorities ?S))"
    by (simp add: confidence_with_rank_priorities sorted_by_confidence_sorted)
  then have resort: "sorted_by_confidence (with_rank_priorities ?S) = with_rank_priorities ?S"
    by (rule sorted_by_confidence_id)
  have top: "sorted_by_confidence (take 10 ?S) = take 10 ?S"
    by (rule sorted_by_confidence_id) (rule sorted_take_conf)
  show ?thesis
  proof (cases "length d > 10")
    case True
    then show ?thesis
      by (simp add: assign_priorities_rank assign_ids_sequential resort take_with_rank_priorities
          keep_top_10_def top)
  next
    case False
    then show ?thesis
      by (simp add: assign_priorities_rank assign_ids_sequential keep_top_10_def)
  qed
qed

lemma length_keep_top_10: "length (keep_top_10 fs) \<le> 10"
  by (simp add: keep_top_10_def)

lemma length_specified_pipeline: "length (specified_pipeline cands) \<le> 10"
  by (simp add: specified_pipeline_def length_keep_top_10)

lemma extract_from_bullets_ok:
  assumes "lower_stable U"
  shows "\<exists>fs. extract_from_bullets U s sid = Inr fs
           \<and> (\<forall>f \<in> set fs. DetectedFeature.confidence f = 85 / 100
                 \<and> lower U (DetectedFeature.name f) = DetectedFeature.name f)"
  unfolding extract_from_bullets_def
  by (rule bullet_lines_ok) (simp_all add: bullet_feature_def lower_kebab [OF assms])

lemma extract_from_action_verbs_ok:
  assumes "lower_stable U"
  shows "\<exists>fs. extract_from_action_verbs U s sid = Inr fs
           \<and> (\<forall>f \<in> set fs. DetectedFeature.confidence f = 70 / 100
                 \<and> lower U (DetectedFeature.name f) = DetectedFeature.name f)"
  unfolding extract_from_action_verbs_def
  by (rule verbs_loop_ok) (simp_all add: verb_feature_def Let_def lower_kebab [OF assms])

lemma extract_from_keywords_ok:
  assumes "lower_stable U"
  shows "\<forall>f \<in> set (extract_from_keywords U s sid). DetectedFeature.confidence f = 60 / 100
                 \<and> lower U (DetectedFeature.name f) = DetectedFeature.name f"
  by (auto simp: extract_from_keywords_def keyword_feature_def Let_def lower_kebab [OF assms])

text \<open>
  C2. \<^verbatim>\<open>detect_features\<close> always returns. Its candidates are the bullets of the product
  text, the bullets of the solution text, the action phrases of the product text and the
  keywords of the solution text, in this order, with confidence 0.85, 0.70 and 0.60. The
  result is the specified pipeline on these candidates: the first candidate of each
  kebab-case name, the ten most confident ones when there are more than ten, sorted by
  falling confidence, with P1 for the first five ranks, P2 for the next three and P3 for the
  rest, and ids 001, 002, ... in the final order; it has at most ten features. The
  character tables are assumed to lower-case a text character by character.
\<close>

theorem detect_features_pipeline:
  assumes stable: "lower_stable U"
  shows "\<exists>bullets bullets_solution actions.
      extract_from_bullets U product_text (str ''product'') = Inr bullets
    \<and> extract_from_bullets U solution_text (str ''solution'') = Inr bullets_solution
    \<and> extract_from_action_verbs U product_text (str ''product'') = Inr actions
    \<and> (\<forall>f \<in> set (bullets @ bullets_solution). DetectedFeature.confidence f = 85 / 100)
    \<and> (\<forall>f \<in> set actions. DetectedFeature.confidence f = 70 / 100)
    \<and> (\<forall>f \<in> set (extract_from_keywords U solution_text (str ''solution'')).
          DetectedFeature.confidence f = 60 / 100)
    \<and> detect_features U product_text solution_text
        = Inr (specified_pipeline (bullets @ bullets_solution @ actions
                 @ extract_from_keywords U solution_text (str ''solution'')))
    \<and> length (specified_pipeline (bullets @ bullets_solution @ actions
                 @ extract_from_keywords U solution_text (str ''solution''))) \<le> 10"
proof -
  let ?kw = "extract_from_keywords U solution_text (str ''solution'')"
  from extract_from_bullets_ok [OF stable, of product_text "str ''product''"]
  obtain b1 where b1: "extract_from_bullets U product_text (str ''product'') = Inr b1"
    "\<forall>f \<in> set b1. DetectedFeature.confidence f = 85 / 100
        \<and> lower U (DetectedFeature.name f) = DetectedFeature.name f" by blast
  from extract_from_bullets_ok [OF stable, of solution_text "str ''solution''"]
  obtain b2 where b2: "extract_from_bullets U solution_text (str ''solution'') = Inr b2"
    "\<forall>f \<in> set b2. DetectedFeature.confidence f = 85 / 100
        \<and> lower U (DetectedFeature.name f) = DetectedFeature.name f" by blast
  from extract_from_action_verbs_ok [OF stable, of product_text "str ''product''"]
  obtain a where a: "extract_from_action_verbs U product_text (str ''product'') = Inr a"
    "\<forall>f \<in> set a. DetectedFeature.confidence f = 70 / 100
        \<and> lower U (DetectedFeature.name f) = DetectedFeature.name f" by blast
  note kw = extract_from_keywords_ok [OF stable, of solution_text "str ''solution''"]
  let ?cands = "b1 @ b2 @ a @ ?kw"
  have collect: "collect_features U product_text solution_text = Inr ?cands"
    by (simp add: collect_features_def b1(1) b2(1) a(1))
  have "\<forall>f \<in> set ?cands. lower U (DetectedFeature.name f) = DetectedFeature.name f"
    using b1(2) b2(2) a(2) kw by auto
  then have dedup: "deduplicate_features U ?cands = first_by_name ?cands []"
    by (rule deduplicate_features_first_by_name)
  have run: "detect_features U product_text solution_text = Inr (specified_pipeline ?cands)"
    unfolding detect_features_def collect sum.case dedup specified_pipeline_def
    using pipeline_after_dedup [of "first_by_name ?cands []"] by (simp add: Let_def)
  have c85: "\<forall>f \<in> set (b1 @ b2). DetectedFeature.confidence f = 85 / 100"
    using b1(2) b2(2) by auto
  have c70: "\<forall>f \<in> set a. DetectedFeature.confidence f = 70 / 100" using a(2) by blast
  have c60: "\<forall>f \<in> set ?kw. DetectedFeature.confidence f = 60 / 100" using kw by blast
  from b1(1) b2(1) a(1) c85 c70 c60 run length_specified_pipeline [of ?cands]
  show ?thesis by blast
qed

text \<open>The passes and the pipeline on the example texts.\<close>

lemma demo_bullets:
  "extract_from_bullets ascii_ucd demo_product (str ''product'') = Inr [demo_bullet]"
  by code_simp

lemma demo_bullets_solution:
  "extract_from_bullets ascii_ucd demo_solution (str ''solution'') = Inr []"
  by code_simp

lemma demo_actions:
  "extract_from_action_verbs ascii_ucd demo_product (str ''product'') = Inr [demo_action]"
  by code_simp

lemma demo_keywords:
  "extract_from_keywords ascii_ucd demo_solution (str ''solution'') = [demo_keyword]"
  by code_simp

lemma demo_pipeline:
  "specified_pipeline [demo_bullet, demo_action, demo_keyword] = demo_features"
  by code_simp

lemma demo_confidences:
  "DetectedFeature.confidence demo_bullet = 85 / 100"
  "DetectedFeature.confidence demo_action = 70 / 100"
  "DetectedFeature.confidence demo_keyword = 60 / 100"
  by (simp_all add: demo_bullet_def demo_action_def demo_keyword_def new_feature_def)

theorem detect_features_pipeline_witness:
  "lower_stable ascii_ucd
   \<and> extract_from_bullets ascii_ucd demo_product (str ''product'') = Inr [demo_bullet]
   \<and> extract_from_bullets ascii_ucd demo_solution (str ''solution'') = Inr []
   \<and> extract_from_action_verbs ascii_ucd demo_product (str ''product'') = Inr [demo_action]
   \<and> extract_from_keywords ascii_ucd demo_solution (str ''solution'') = [demo_keyword]
   \<and> DetectedFeature.confidence demo_bullet = 85 / 100
   \<and> DetectedFeature.confidence demo_action = 70 / 100
   \<and> DetectedFeature.confidence demo_keyword = 60 / 100
   \<and> detect_features ascii_ucd demo_product demo_solution = Inr demo_features
   \<and> length demo_features = 2"
  using detect_features_pipeline [OF ascii_lower_stable, of demo_product demo_solution]
    ascii_lower_stable demo_bullets demo_bullets_solution demo_actions demo_keywords
    demo_pipeline demo_confidences
  by (auto simp: demo_features_def)

end
